theory Spec2Isabelle
  imports Main
begin

section \<open>Data model of main.py\<close>

text \<open>
  Node identifiers are Python ints.  An adjacency entry is the two-element list
  \<^verbatim>\<open>[weight, connected_node]\<close> that \<^verbatim>\<open>create_networkx_graph\<close> appends, with the
  weight an int (\<^verbatim>\<open>int(round(...))\<close>).  The adjacency list \<^verbatim>\<open>adj_list\<close> is a dict from
  node to the list of its entries; it is kept as an association list in insertion order,
  read with \<open>map_of\<close>, because \<^verbatim>\<open>dijk\<close> enumerates its keys.
\<close>

type_synonym adjacency = "(int \<times> int) list"
type_synonym graph = "(int \<times> adjacency) list"

text \<open>
  The exceptions a run can end with.  \<open>KeyError k\<close> is a dict lookup of a missing key
  \<open>k\<close>, \<open>IndexError\<close> a list index out of range, \<open>RecursionError\<close> the interpreter's
  refusal of a call nested deeper than its recursion limit
  (\<^verbatim>\<open>sys.getrecursionlimit()\<close>, 1000 by default; no statement of src/ changes it).
  \<open>UnknownNodeError\<close> is the error name of the specification; no statement of main.py
  raises it.
\<close>

datatype error = KeyError int | IndexError | RecursionError | UnknownNodeError

text \<open>
  An element of \<^verbatim>\<open>edge_weights_labels\<close> is the list \<^verbatim>\<open>[a, b, weight]\<close>.  The module
  globals that the engines read or write are \<^verbatim>\<open>adj_list\<close> and \<^verbatim>\<open>edge_weights_labels\<close>.
\<close>

type_synonym edge = "int \<times> int \<times> int"

record module_state =
  adj_list :: graph
  edge_weights_labels :: "edge list"

definition graph_get :: "graph \<Rightarrow> int \<Rightarrow> error + adjacency" where
  "graph_get graph k = (case map_of graph k of None \<Rightarrow> Inl (KeyError k) | Some v \<Rightarrow> Inr v)"

definition keys :: "graph \<Rightarrow> int list" where
  "keys graph = map fst graph"

text \<open>The nodes named as a neighbour somewhere in the adjacency list.\<close>

definition targets :: "graph \<Rightarrow> int set" where
  "targets graph = snd ` (\<Union>kv \<in> set graph. set (snd kv))"

text \<open>
  A well-formed adjacency list: every neighbour is itself a key
  (\<^verbatim>\<open>create_networkx_graph\<close> creates a key for each node before it adds the edges).
\<close>

definition graph_ok :: "graph \<Rightarrow> bool" where
  "graph_ok graph = (\<forall>kv \<in> set graph. \<forall>e \<in> set (snd kv). snd e \<in> set (keys graph))"

section \<open>bfs\<close>

text \<open>
  The loop state of \<^verbatim>\<open>bfs\<close> is the triple (queue, bfs_visited, order_visited).
  \<open>bfs_for\<close> is the inner \<^verbatim>\<open>for neighbour in graph[current_node]\<close>.
\<close>

type_synonym bfs_state = "int list \<times> int list \<times> (int \<times> int) list"

fun bfs_for :: "int \<Rightarrow> adjacency \<Rightarrow> bfs_state \<Rightarrow> bfs_state" where
  "bfs_for current_node [] st = st"
| "bfs_for current_node (neighbour # rest) (queue, bfs_visited, order_visited) =
     (let adjacent_node = snd neighbour in
      if adjacent_node \<notin> set bfs_visited
      then bfs_for current_node rest
             (queue @ [adjacent_node], bfs_visited @ [adjacent_node],
              order_visited @ [(current_node, adjacent_node)])
      else bfs_for current_node rest (queue, bfs_visited, order_visited))"

lemma bfs_for_shape:
  "bfs_for c nbrs (q, v, ord) = (q', v', ord') \<Longrightarrow>
   \<exists>new. q' = q @ new \<and> v' = v @ new \<and> ord' = ord @ map (Pair c) new \<and>
         distinct new \<and> set new = snd ` set nbrs - set v"
proof (induction nbrs arbitrary: q v ord)
  case Nil
  then show ?case by simp
next
  case (Cons e nbrs)
  show ?case
  proof (cases "snd e \<in> set v")
    case True
    with Cons.prems have "bfs_for c nbrs (q, v, ord) = (q', v', ord')" by simp
    from Cons.IH [OF this] True show ?thesis by auto
  next
    case False
    with Cons.prems
    have "bfs_for c nbrs (q @ [snd e], v @ [snd e], ord @ [(c, snd e)]) = (q', v', ord')"
      by (simp add: Let_def)
    from Cons.IH [OF this] obtain new where new:
      "q' = (q @ [snd e]) @ new" "v' = (v @ [snd e]) @ new"
      "ord' = (ord @ [(c, snd e)]) @ map (Pair c) new" "distinct new"
      "set new = snd ` set nbrs - set (v @ [snd e])"
      by blast
    have "q' = q @ (snd e # new)" "v' = v @ (snd e # new)"
      "ord' = ord @ map (Pair c) (snd e # new)"
      using new by simp_all
    moreover have "distinct (snd e # new)" using new by auto
    moreover have "set (snd e # new) = snd ` set (e # nbrs) - set v"
      using new False by auto
    ultimately show ?thesis by blast
  qed
qed

lemma graph_get_targets:
  assumes "graph_get g k = Inr nbrs"
  shows "snd ` set nbrs \<subseteq> targets g"
proof -
  from assms have "map_of g k = Some nbrs"
    by (simp add: graph_get_def split: option.splits)
  then have "(k, nbrs) \<in> set g" by (rule map_of_SomeD)
  then show ?thesis unfolding targets_def by force
qed

lemma finite_targets: "finite (targets g)"
  unfolding targets_def by simp

function bfs_while :: "graph \<Rightarrow> bfs_state \<Rightarrow> error + (int \<times> int) list" where
  "bfs_while graph (queue, bfs_visited, order_visited) =
     (case queue of
        [] \<Rightarrow> Inr order_visited
      | current_node # _ \<Rightarrow>
          (case graph_get graph current_node of
             Inl e \<Rightarrow> Inl e
           | Inr nbrs \<Rightarrow>
               (case bfs_for current_node nbrs (queue, bfs_visited, order_visited) of
                  (queue', bfs_visited', order_visited') \<Rightarrow>
                    bfs_while graph (tl queue', bfs_visited', order_visited'))))"
  by pat_completeness auto
termination
proof (relation "measure (\<lambda>(g, q, v, ord). 2 * card (targets g - set v) + length q)",
       goal_cases)
  case 1
  show ?case by simp
next
  case (2 graph queue bfs_visited order_visited c rest nbrs q' rest' v' ord')
  from bfs_for_shape [of c nbrs queue bfs_visited order_visited q' v' ord'] 2
  obtain new where new: "q' = queue @ new" "v' = bfs_visited @ new" "distinct new"
    "set new = snd ` set nbrs - set bfs_visited"
    by auto
  have sub: "set new \<subseteq> targets graph - set bfs_visited"
    using new graph_get_targets [of graph c nbrs] 2 by auto
  have "targets graph - set v' = (targets graph - set bfs_visited) - set new"
    using new by auto
  then have "card (targets graph - set v') = card (targets graph - set bfs_visited) - length new"
    using sub new(3) finite_targets [of graph]
    by (simp add: card_Diff_subset distinct_card)
  moreover have "length new \<le> card (targets graph - set bfs_visited)"
    using sub new(3) finite_targets [of graph]
    by (metis card_mono distinct_card finite_Diff)
  moreover have "length (tl q') = length rest + length new"
    using new 2 by simp
  moreover have "length queue = Suc (length rest)" using 2 by simp
  ultimately show ?case by simp
qed

definition bfs :: "graph \<Rightarrow> int \<Rightarrow> error + (int \<times> int) list" where
  "bfs graph start = bfs_while graph ([start], [start], [(start, start)])"

text \<open>
  The call \<^verbatim>\<open>bfs(adj_list, start)\<close> that \<^verbatim>\<open>update_bfs\<close> makes, as a step of the module
  state.  The argument is the module's dict itself.  \<^verbatim>\<open>bfs\<close> binds three fresh local
  lists, only reads \<^verbatim>\<open>graph\<close> and assigns no global, so the state after the call is the
  state before it, whether the call returns or raises.
\<close>

definition bfs_call ::
  "int \<Rightarrow> module_state \<Rightarrow> (error + (int \<times> int) list) \<times> module_state" where
  "bfs_call start st = (bfs (adj_list st) start, st)"

text \<open>
  The graph of the specification's concrete scenario: nodes 0..3 and the edges
  (0,1,5), (1,2,3), (2,3,1), (0,3,10), as \<^verbatim>\<open>create_networkx_graph\<close> lays them out.
\<close>

definition scenario_graph :: graph where
  "scenario_graph =
     [(0, [(5, 1), (10, 3)]), (1, [(5, 0), (3, 2)]),
      (2, [(3, 1), (1, 3)]), (3, [(1, 2), (10, 0)])]"

section \<open>kruskals and its disjoint-set forest\<close>

text \<open>
  Python list indexing, for reading and for item assignment: a negative index counts
  from the end, and an index outside the list raises IndexError.
\<close>

definition list_get :: "'a list \<Rightarrow> int \<Rightarrow> error + 'a" where
  "list_get xs i =
     (let n = int (length xs); j = (if i < 0 then i + n else i)
      in if 0 \<le> j \<and> j < n then Inr (xs ! nat j) else Inl IndexError)"

definition list_set :: "'a list \<Rightarrow> int \<Rightarrow> 'a \<Rightarrow> error + 'a list" where
  "list_set xs i v =
     (let n = int (length xs); j = (if i < 0 then i + n else i)
      in if 0 \<le> j \<and> j < n then Inr (xs[nat j := v]) else Inl IndexError)"

text \<open>
  \<^verbatim>\<open>find\<close>, the closure of \<^verbatim>\<open>kruskals\<close> over its local list \<^verbatim>\<open>root\<close>: the list is
  passed in and returned.  \<^verbatim>\<open>find\<close> is recursive and \<^verbatim>\<open>join\<close> does not balance the
  forest, so the depth of the recursion is the length of a parent chain, which the
  interpreter bounds.  The first argument \<open>frames\<close> is the number of further nested
  calls the interpreter still admits at the point of the call (the recursion limit
  minus the depth of the calling frame): with none left the call raises
  RecursionError, and each nested call has one less.  On a list whose parent pointers
  run in a cycle the recursion ends in this way.

  \<^verbatim>\<open>
  def find(x):
      if root[x] == x:
          return x
      root[x] = find(root[x])
      return root[x]
  \<close>
\<close>

fun find_uf :: "nat \<Rightarrow> int list \<Rightarrow> int \<Rightarrow> error + int list \<times> int" where
  "find_uf 0 root x = Inl RecursionError"
| "find_uf (Suc frames) root x =
     (case list_get root x of
        Inl e \<Rightarrow> Inl e
      | Inr p \<Rightarrow>
          if p = x then Inr (root, x)
          else (case find_uf frames root p of
                  Inl e \<Rightarrow> Inl e
                | Inr (root1, y) \<Rightarrow>
                    (case list_set root1 x y of
                       Inl e \<Rightarrow> Inl e
                     | Inr root2 \<Rightarrow>
                         (case list_get root2 x of
                            Inl e \<Rightarrow> Inl e
                          | Inr z \<Rightarrow> Inr (root2, z)))))"

text \<open>
  \<^verbatim>\<open>root[find(a)] = root[find(b)]\<close>: Python evaluates the right-hand side first, then the
  subscript of the target.  \<^verbatim>\<open>join\<close> is itself a call, so its two calls of \<^verbatim>\<open>find\<close>
  run one frame deeper.
\<close>

fun join :: "nat \<Rightarrow> int list \<Rightarrow> int \<Rightarrow> int \<Rightarrow> error + int list" where
  "join 0 root a b = Inl RecursionError"
| "join (Suc frames) root a b =
     (case find_uf frames root b of
        Inl e \<Rightarrow> Inl e
      | Inr (root1, fb) \<Rightarrow>
          (case list_get root1 fb of
             Inl e \<Rightarrow> Inl e
           | Inr v \<Rightarrow>
               (case find_uf frames root1 a of
                  Inl e \<Rightarrow> Inl e
                | Inr (root2, fa) \<Rightarrow>
                    (case list_set root2 fa v of
                       Inl e \<Rightarrow> Inl e
                     | Inr root3 \<Rightarrow> Inr root3))))"

text \<open>The loop \<^verbatim>\<open>for i in range(len(edges))\<close> over the sorted edge list.\<close>

fun kruskals_for ::
  "nat \<Rightarrow> edge list \<Rightarrow> int list \<Rightarrow> (edge \<times> bool) list \<Rightarrow> error + (edge \<times> bool) list" where
  "kruskals_for frames [] root order_vis = Inr order_vis"
| "kruskals_for frames (e # rest) root order_vis =
     (case e of (a, b, wt) \<Rightarrow>
        (case find_uf frames root a of
           Inl err \<Rightarrow> Inl err
         | Inr (root1, fa) \<Rightarrow>
             (case find_uf frames root1 b of
                Inl err \<Rightarrow> Inl err
              | Inr (root2, fb) \<Rightarrow>
                  if fa \<noteq> fb
                  then (case join frames root2 a b of
                          Inl err \<Rightarrow> Inl err
                        | Inr root3 \<Rightarrow> kruskals_for frames rest root3 (order_vis @ [(e, True)]))
                  else kruskals_for frames rest root2 (order_vis @ [(e, False)]))))"

text \<open>
  \<^verbatim>\<open>kruskals(G, N)\<close>, with \<open>frames\<close> the number of nested calls the interpreter still
  admits inside the body of \<^verbatim>\<open>kruskals\<close>.  \<^verbatim>\<open>edges = edge_weights_labels\<close> binds the
  module's list itself, so \<^verbatim>\<open>edges.sort(key=lambda x: x[2])\<close> sorts the global in place
  (a stable sort, as \<open>sort_key\<close> is); the returned state carries the sorted list.  The
  key function is a Python call per element: with no frame left and a non-empty list
  the sort raises RecursionError and leaves the list as it was.  The parameter \<open>G\<close> is
  never read.
\<close>

definition kruskals ::
  "nat \<Rightarrow> 'g \<Rightarrow> int \<Rightarrow> module_state \<Rightarrow> (error + (edge \<times> bool) list) \<times> module_state" where
  "kruskals frames G N st =
     (let root = map int [0..<nat N] in
      if frames = 0 \<and> edge_weights_labels st \<noteq> [] then (Inl RecursionError, st)
      else
        (let edges = sort_key (\<lambda>x. snd (snd x)) (edge_weights_labels st);
             st' = st\<lparr>edge_weights_labels := edges\<rparr>
         in (kruskals_for frames edges root [], st')))"

text \<open>The two calls unfolded for a frame count given as a numeral.\<close>

lemma find_uf_unfold:
  "find_uf frames root x =
     (if frames = 0 then Inl RecursionError
      else (case list_get root x of
              Inl e \<Rightarrow> Inl e
            | Inr p \<Rightarrow>
                if p = x then Inr (root, x)
                else (case find_uf (frames - 1) root p of
                        Inl e \<Rightarrow> Inl e
                      | Inr (root1, y) \<Rightarrow>
                          (case list_set root1 x y of
                             Inl e \<Rightarrow> Inl e
                           | Inr root2 \<Rightarrow>
                               (case list_get root2 x of
                                  Inl e \<Rightarrow> Inl e
                                | Inr z \<Rightarrow> Inr (root2, z))))))"
proof (cases frames)
  case 0
  then show ?thesis by simp
next
  case (Suc f)
  show ?thesis unfolding Suc find_uf.simps diff_Suc_1 by simp
qed

lemma join_unfold:
  "join frames root a b =
     (if frames = 0 then Inl RecursionError
      else (case find_uf (frames - 1) root b of
              Inl e \<Rightarrow> Inl e
            | Inr (root1, fb) \<Rightarrow>
                (case list_get root1 fb of
                   Inl e \<Rightarrow> Inl e
                 | Inr v \<Rightarrow>
                     (case find_uf (frames - 1) root1 a of
                        Inl e \<Rightarrow> Inl e
                      | Inr (root2, fa) \<Rightarrow>
                          (case list_set root2 fa v of
                             Inl e \<Rightarrow> Inl e
                           | Inr root3 \<Rightarrow> Inr root3)))))"
proof (cases frames)
  case 0
  then show ?thesis by simp
next
  case (Suc f)
  show ?thesis unfolding Suc join.simps diff_Suc_1 by simp
qed

subsection \<open>The forest invariant\<close>

text \<open>
  \<open>rep root x r\<close>: following the parent pointers from \<open>x\<close> ends at the root \<open>r\<close>.
\<close>

inductive rep :: "int list \<Rightarrow> int \<Rightarrow> int \<Rightarrow> bool" for root where
  rep_root: "0 \<le> x \<Longrightarrow> x < int (length root) \<Longrightarrow> root ! nat x = x \<Longrightarrow> rep root x x"
| rep_step: "0 \<le> x \<Longrightarrow> x < int (length root) \<Longrightarrow> root ! nat x \<noteq> x \<Longrightarrow>
             rep root (root ! nat x) r \<Longrightarrow> rep root x r"

definition rep_of :: "int list \<Rightarrow> int \<Rightarrow> int" where
  "rep_of root x = (THE r. rep root x r)"

definition uf_inv :: "int list \<Rightarrow> bool" where
  "uf_inv root = (\<forall>i < length root. \<exists>r. rep root (int i) r)"

definition nodes :: "int list \<Rightarrow> int set" where
  "nodes root = {0..<int (length root)}"

definition roots :: "int list \<Rightarrow> int set" where
  "roots root = {x \<in> nodes root. root ! nat x = x}"

lemma rep_range:
  "rep root x r \<Longrightarrow> x \<in> nodes root \<and> r \<in> nodes root \<and> root ! nat r = r"
  by (induction rule: rep.induct) (auto simp: nodes_def)

lemma rep_det: "rep root x r \<Longrightarrow> rep root x s \<Longrightarrow> r = s"
proof (induction arbitrary: s rule: rep.induct)
  case (rep_root x)
  from rep_root.prems rep_root.hyps show ?case by (cases rule: rep.cases) auto
next
  case (rep_step x r)
  from rep_step.prems rep_step.hyps(3) have "rep root (root ! nat x) s"
    by (cases rule: rep.cases) auto
  then show ?case by (rule rep_step.IH)
qed

text \<open>\<open>repn root x r n\<close>: the chain from \<open>x\<close> to its root \<open>r\<close> follows \<open>n\<close> pointers.\<close>

inductive repn :: "int list \<Rightarrow> int \<Rightarrow> int \<Rightarrow> nat \<Rightarrow> bool" for root where
  repn_root: "0 \<le> x \<Longrightarrow> x < int (length root) \<Longrightarrow> root ! nat x = x \<Longrightarrow> repn root x x 0"
| repn_step: "0 \<le> x \<Longrightarrow> x < int (length root) \<Longrightarrow> root ! nat x \<noteq> x \<Longrightarrow>
              repn root (root ! nat x) r n \<Longrightarrow> repn root x r (Suc n)"

lemma rep_repn: "rep root x r \<Longrightarrow> \<exists>n. repn root x r n"
proof (induction rule: rep.induct)
  case (rep_root x)
  then have "repn root x x 0" by (rule repn.repn_root)
  then show ?case by blast
next
  case (rep_step x r)
  then obtain n where "repn root (root ! nat x) r n" by blast
  with rep_step.hyps(1,2,3) have "repn root x r (Suc n)" by (rule repn.repn_step)
  then show ?case by blast
qed

lemma repn_rep: "repn root x r n \<Longrightarrow> rep root x r"
proof (induction rule: repn.induct)
  case (repn_root x)
  then show ?case by (rule rep.rep_root)
next
  case (repn_step x r n)
  from repn_step.hyps(1,2,3) repn_step.IH show ?case by (rule rep.rep_step)
qed

lemma repn_det: "repn root x r n \<Longrightarrow> repn root x s m \<Longrightarrow> n = m"
proof (induction arbitrary: s m rule: repn.induct)
  case (repn_root x)
  from repn_root.prems repn_root.hyps show ?case by (cases rule: repn.cases) auto
next
  case (repn_step x r n)
  from repn_step.prems repn_step.hyps(3) obtain m' where
    "m = Suc m'" "repn root (root ! nat x) s m'"
    by (cases rule: repn.cases) auto
  with repn_step.IH show ?case by blast
qed

text \<open>A parent chain visits no node twice, so it is shorter than the list.\<close>

lemma repn_card:
  "repn root x r n \<Longrightarrow> n < card {y \<in> {0..<int (length root)}. \<exists>m \<le> n. repn root y r m}"
proof (induction rule: repn.induct)
  case (repn_root x)
  let ?S = "{y \<in> {0..<int (length root)}. \<exists>m \<le> 0. repn root y x m}"
  have "repn root x x 0" using repn_root by (rule repn.repn_root)
  with repn_root have "x \<in> ?S" by simp
  moreover have "finite ?S" by (rule finite_subset [where B = "{0..<int (length root)}"]) auto
  ultimately show ?case by (metis card_gt_0_iff empty_iff)
next
  case (repn_step x r n)
  let ?A = "{y \<in> {0..<int (length root)}. \<exists>m \<le> n. repn root y r m}"
  let ?B = "{y \<in> {0..<int (length root)}. \<exists>m \<le> Suc n. repn root y r m}"
  have xs: "repn root x r (Suc n)" using repn_step.hyps by (rule repn.repn_step)
  have "x \<notin> ?A"
  proof
    assume "x \<in> ?A"
    then obtain m where "m \<le> n" "repn root x r m" by blast
    with repn_det [OF xs] show False by fastforce
  qed
  moreover have "finite ?A" by (rule finite_subset [where B = "{0..<int (length root)}"]) auto
  ultimately have c: "card (insert x ?A) = Suc (card ?A)" by simp
  have "insert x ?A \<subseteq> ?B"
  proof
    fix y assume "y \<in> insert x ?A"
    then consider "y = x" | "y \<in> ?A" by blast
    then show "y \<in> ?B"
    proof cases
      case 1
      with xs repn_step.hyps(1,2) show ?thesis by auto
    next
      case 2
      then obtain m where "y \<in> {0..<int (length root)}" "m \<le> n" "repn root y r m" by blast
      then have "y \<in> {0..<int (length root)}" "m \<le> Suc n" "repn root y r m" by simp_all
      then show ?thesis by blast
    qed
  qed
  moreover have "finite ?B" by (rule finite_subset [where B = "{0..<int (length root)}"]) auto
  ultimately have "card (insert x ?A) \<le> card ?B" by (rule card_mono [rotated])
  with c repn_step.IH show ?case by linarith
qed

lemma repn_bound: "repn root x r n \<Longrightarrow> n < length root"
proof -
  assume r: "repn root x r n"
  let ?S = "{y \<in> {0..<int (length root)}. \<exists>m \<le> n. repn root y r m}"
  have "card ?S \<le> card {0..<int (length root)}" by (rule card_mono) auto
  with repn_card [OF r] show ?thesis by simp
qed

lemma rep_of_eq: "rep root x r \<Longrightarrow> rep_of root x = r"
  unfolding rep_of_def by (rule the_equality) (auto dest: rep_det)

lemma uf_inv_rep: "uf_inv root \<Longrightarrow> x \<in> nodes root \<Longrightarrow> rep root x (rep_of root x)"
proof -
  assume inv: "uf_inv root" and x: "x \<in> nodes root"
  then have "nat x < length root" by (auto simp: nodes_def)
  with inv obtain r where "rep root (int (nat x)) r" unfolding uf_inv_def by blast
  with x have "rep root x r" by (simp add: nodes_def)
  then show ?thesis by (simp add: rep_of_eq)
qed

lemma list_get_in: "x \<in> nodes xs \<Longrightarrow> list_get xs x = Inr (xs ! nat x)"
  by (simp add: list_get_def nodes_def Let_def)

lemma list_set_in: "0 \<le> x \<Longrightarrow> x < int (length xs) \<Longrightarrow> list_set xs x v = Inr (xs[nat x := v])"
  by (simp add: list_set_def Let_def)

lemma rep_compress:
  assumes xr: "rep root x r"
  shows "rep root y s \<Longrightarrow> rep (root[nat x := r]) y s"
proof (induction rule: rep.induct)
  case (rep_root y)
  from xr have rr: "r \<in> nodes root" "root ! nat r = r" "x \<in> nodes root"
    using rep_range by blast+
  show ?case
  proof (cases "y = x")
    case True
    with rep_root xr have "r = y" using rep.rep_root [of y root] rep_det by blast
    with rep_root True show ?thesis by - (rule rep.rep_root, auto)
  next
    case False
    with rep_root rr show ?thesis
      by - (rule rep.rep_root, auto simp: nth_list_update nodes_def)
  qed
next
  case (rep_step y s)
  from xr have rr: "r \<in> nodes root" "root ! nat r = r" "x \<in> nodes root"
    using rep_range by blast+
  show ?case
  proof (cases "y = x")
    case True
    have "rep root y s" using rep_step.hyps by - (rule rep.rep_step, auto)
    with xr True have sr: "s = r" using rep_det by blast
    have rx: "r \<noteq> x" using rr rep_step.hyps True by auto
    have "rep (root[nat x := r]) r r"
      using rr rx by - (rule rep.rep_root, auto simp: nodes_def nth_list_update)
    then have "rep (root[nat x := r]) x r"
      using rr rx by - (rule rep.rep_step, auto simp: nodes_def)
    with True sr show ?thesis by simp
  next
    case False
    with rep_step rr show ?thesis
      by - (rule rep.rep_step, auto simp: nth_list_update nodes_def)
  qed
qed

lemma find_uf_repn:
  "repn root x r n \<Longrightarrow> n < frames \<Longrightarrow>
   \<exists>root'. find_uf frames root x = Inr (root', r) \<and> length root' = length root \<and>
           (\<forall>y s. rep root y s \<longrightarrow> rep root' y s)"
proof (induction arbitrary: frames rule: repn.induct)
  case (repn_root x)
  from repn_root.prems obtain f where f: "frames = Suc f" by (cases frames) auto
  have "find_uf frames root x = Inr (root, x)"
    using repn_root.hyps unfolding f by (simp add: list_get_in nodes_def)
  then show ?case by blast
next
  case (repn_step x r n)
  from repn_step.prems obtain f where f: "frames = Suc f" "n < f" by (cases frames) auto
  from repn_step.IH [OF f(2)] obtain root1 where
    r1: "find_uf f root (root ! nat x) = Inr (root1, r)"
    "length root1 = length root" "\<forall>y s. rep root y s \<longrightarrow> rep root1 y s"
    by blast
  let ?root2 = "root1[nat x := r]"
  have "repn root x r (Suc n)" using repn_step.hyps by (rule repn.repn_step)
  then have "rep root x r" by (rule repn_rep)
  with r1 have x1: "rep root1 x r" by blast
  have "find_uf frames root x = Inr (?root2, r)"
    using repn_step.hyps(1,2,3) r1 unfolding f
    by (simp add: list_get_in list_set_in nodes_def)
  moreover have "\<forall>y s. rep root y s \<longrightarrow> rep ?root2 y s"
    using r1 rep_compress [OF x1] by blast
  ultimately show ?case using r1 by force
qed

lemma find_uf_rep:
  assumes "rep root x r" "length root \<le> frames"
  shows "\<exists>root'. find_uf frames root x = Inr (root', r) \<and> length root' = length root \<and>
           (\<forall>y s. rep root y s \<longrightarrow> rep root' y s)"
proof -
  from rep_repn [OF assms(1)] obtain n where n: "repn root x r n" by blast
  from repn_bound [OF n] assms(2) have "n < frames" by simp
  with n show ?thesis by (rule find_uf_repn)
qed

lemma reps_preserved:
  assumes "uf_inv root" "length root' = length root"
    "\<forall>y s. rep root y s \<longrightarrow> rep root' y s"
  shows "uf_inv root'" "\<And>y. y \<in> nodes root \<Longrightarrow> rep_of root' y = rep_of root y"
proof -
  show "uf_inv root'" using assms unfolding uf_inv_def by metis
  fix y assume "y \<in> nodes root"
  with assms have "rep root' y (rep_of root y)" using uf_inv_rep by blast
  then show "rep_of root' y = rep_of root y" by (rule rep_of_eq)
qed

lemma find_uf_ok:
  assumes "uf_inv root" "x \<in> nodes root" "length root \<le> frames"
  shows "\<exists>root'. find_uf frames root x = Inr (root', rep_of root x) \<and>
           length root' = length root \<and> uf_inv root' \<and>
           (\<forall>y \<in> nodes root. rep_of root' y = rep_of root y)"
proof -
  from assms(1,2) have "rep root x (rep_of root x)" by (rule uf_inv_rep)
  from find_uf_rep [OF this assms(3)] obtain root' where r:
    "find_uf frames root x = Inr (root', rep_of root x)" "length root' = length root"
    "\<forall>y s. rep root y s \<longrightarrow> rep root' y s" by blast
  from reps_preserved [OF assms(1) r(2) r(3)] r show ?thesis by blast
qed

lemma nodes_length: "length root' = length root \<Longrightarrow> nodes root' = nodes root"
  by (simp add: nodes_def)

lemma rep_link:
  assumes ra: "ra \<in> nodes root" "root ! nat ra = ra"
    and rb: "rb \<in> nodes root" "root ! nat rb = rb" and ne: "ra \<noteq> rb"
  shows "rep root y s \<Longrightarrow> rep (root[nat ra := rb]) y (if s = ra then rb else s)"
proof (induction rule: rep.induct)
  case (rep_root y)
  show ?case
  proof (cases "y = ra")
    case True
    have "rep (root[nat ra := rb]) rb rb"
      using ra rb ne by - (rule rep.rep_root, auto simp: nodes_def nth_list_update)
    then have "rep (root[nat ra := rb]) ra rb"
      using ra ne by - (rule rep.rep_step, auto simp: nodes_def)
    with True show ?thesis by simp
  next
    case False
    with rep_root ra have "rep (root[nat ra := rb]) y y"
      by - (rule rep.rep_root, auto simp: nodes_def nth_list_update)
    with False show ?thesis by simp
  qed
next
  case (rep_step y s)
  from rep_step.hyps ra have "y \<noteq> ra" by auto
  with rep_step ra show ?case
    by - (rule rep.rep_step, auto simp: nodes_def nth_list_update)
qed

lemma rep_of_root: "uf_inv root \<Longrightarrow> x \<in> nodes root \<Longrightarrow>
  rep_of root x \<in> nodes root \<and> root ! nat (rep_of root x) = rep_of root x"
  using uf_inv_rep rep_range by blast

lemma join_ok:
  assumes inv: "uf_inv root" and a: "a \<in> nodes root" and b: "b \<in> nodes root"
    and ne: "rep_of root a \<noteq> rep_of root b" and fr: "length root < frames"
  shows "\<exists>root'. join frames root a b = Inr root' \<and> length root' = length root \<and>
           uf_inv root' \<and>
           (\<forall>y \<in> nodes root. rep_of root' y =
              (if rep_of root y = rep_of root a then rep_of root b else rep_of root y))"
proof -
  from fr obtain f where f: "frames = Suc f" "length root \<le> f" by (cases frames) auto
  from find_uf_ok [OF inv b f(2)] obtain root1 where r1:
    "find_uf f root b = Inr (root1, rep_of root b)" "length root1 = length root"
    "uf_inv root1" "\<forall>y \<in> nodes root. rep_of root1 y = rep_of root y" by blast
  have n1: "nodes root1 = nodes root" using r1 by (simp add: nodes_def)
  have fb: "rep_of root1 b = rep_of root b" using r1 b by blast
  have rb1: "rep_of root b \<in> nodes root1" "root1 ! nat (rep_of root b) = rep_of root b"
    using rep_of_root [OF r1(3), of b] b n1 fb by auto
  from find_uf_ok [OF r1(3), of a f] a n1 f(2) r1(2) obtain root2 where r2:
    "find_uf f root1 a = Inr (root2, rep_of root1 a)" "length root2 = length root1"
    "uf_inv root2" "\<forall>y \<in> nodes root1. rep_of root2 y = rep_of root1 y" by auto
  have n2: "nodes root2 = nodes root" using r2 n1 by (simp add: nodes_def)
  have fa: "rep_of root1 a = rep_of root a" using r1 a by blast
  have eq2: "\<forall>y \<in> nodes root. rep_of root2 y = rep_of root y"
    using r1 r2 n1 by simp
  have ra2: "rep_of root a \<in> nodes root2" "root2 ! nat (rep_of root a) = rep_of root a"
    using rep_of_root [OF r2(3), of a] a n2 eq2 by auto
  have rb2: "rep_of root b \<in> nodes root2" "root2 ! nat (rep_of root b) = rep_of root b"
    using rep_of_root [OF r2(3), of b] b n2 eq2 by auto
  let ?root3 = "root2[nat (rep_of root a) := rep_of root b]"
  have "join frames root a b = Inr ?root3"
    using r1 r2 rb1 ra2 fa unfolding f
    by (simp add: list_get_in list_set_in nodes_def)
  moreover have len: "length ?root3 = length root" using r1 r2 by simp
  moreover have link: "\<And>y s. rep root2 y s \<Longrightarrow>
      rep ?root3 y (if s = rep_of root a then rep_of root b else s)"
    using rep_link [OF ra2 rb2 ne] .
  have reps: "\<And>y. y \<in> nodes root \<Longrightarrow> rep ?root3 y
      (if rep_of root y = rep_of root a then rep_of root b else rep_of root y)"
  proof -
    fix y assume y: "y \<in> nodes root"
    with n2 r2(3) have "rep root2 y (rep_of root2 y)" using uf_inv_rep by blast
    with eq2 y have "rep root2 y (rep_of root y)" by simp
    from link [OF this] show "rep ?root3 y
      (if rep_of root y = rep_of root a then rep_of root b else rep_of root y)" .
  qed
  have "uf_inv ?root3"
    unfolding uf_inv_def
  proof (intro allI impI)
    fix i assume "i < length ?root3"
    then have "int i \<in> nodes root" using len by (simp add: nodes_def)
    from reps [OF this] show "\<exists>r. rep ?root3 (int i) r" by blast
  qed
  moreover have "\<forall>y \<in> nodes root. rep_of ?root3 y =
              (if rep_of root y = rep_of root a then rep_of root b else rep_of root y)"
    using reps rep_of_eq by blast
  ultimately show ?thesis by blast
qed

subsection \<open>Connectivity and connected components\<close>

text \<open>
  The reference notion of connectivity for an undirected edge set: the reflexive
  transitive closure of the edges read in both directions.
\<close>

definition conn :: "(int \<times> int) set \<Rightarrow> (int \<times> int) set" where
  "conn E = (E \<union> E\<inverse>)\<^sup>*"

lemma conn_mono: "E \<subseteq> E' \<Longrightarrow> conn E \<subseteq> conn E'"
  unfolding conn_def by (intro rtrancl_mono) auto

lemma conn_refl: "(x, x) \<in> conn E" by (simp add: conn_def)

lemma conn_trans: "(x, y) \<in> conn E \<Longrightarrow> (y, z) \<in> conn E \<Longrightarrow> (x, z) \<in> conn E"
  unfolding conn_def by (rule rtrancl_trans)

lemma conn_edge: "(a, b) \<in> E \<Longrightarrow> (a, b) \<in> conn E \<and> (b, a) \<in> conn E"
  unfolding conn_def by auto

lemma conn_closed:
  assumes "E \<subseteq> V \<times> V" "(x, y) \<in> conn E" "x \<in> V"
  shows "y \<in> V"
  using assms(2) unfolding conn_def
  by (induction rule: rtrancl_induct) (use assms in auto)

lemma conn_insert:
  assumes E: "E \<subseteq> V \<times> V" and a: "a \<in> V" and b: "b \<in> V"
    and f: "\<forall>x \<in> V. \<forall>y \<in> V. (f x = f y) = ((x, y) \<in> conn E)"
    and f': "\<forall>x \<in> V. f' x = (if f x = f a then f b else f x)"
  shows "\<forall>x \<in> V. \<forall>y \<in> V. (f' x = f' y) = ((x, y) \<in> conn (insert (a, b) E))"
proof (intro ballI iffI)
  fix x y assume x: "x \<in> V" and y: "y \<in> V" and eq: "f' x = f' y"
  let ?R = "conn (insert (a, b) E)"
  have sub: "conn E \<subseteq> ?R" by (rule conn_mono) auto
  have ab: "(a, b) \<in> ?R" "(b, a) \<in> ?R" using conn_edge [of a b "insert (a, b) E"] by auto
  have old: "\<And>u v. u \<in> V \<Longrightarrow> v \<in> V \<Longrightarrow> f u = f v \<Longrightarrow> (u, v) \<in> ?R"
    using f sub by blast
  consider "f x = f a" "f y = f a" | "f x = f a" "f y \<noteq> f a" | "f x \<noteq> f a" "f y = f a"
    | "f x \<noteq> f a" "f y \<noteq> f a" by blast
  then show "(x, y) \<in> ?R"
  proof cases
    case 1
    then show ?thesis using old x y by simp
  next
    case 2
    with eq f' x y have "f b = f y" by simp
    then have "(b, y) \<in> ?R" using old b y by blast
    moreover have "(x, a) \<in> ?R" using old x a 2 by blast
    ultimately show ?thesis using ab conn_trans by blast
  next
    case 3
    with eq f' x y have "f x = f b" by simp
    then have "(x, b) \<in> ?R" using old b x by blast
    moreover have "(a, y) \<in> ?R" using old y a 3 by simp
    ultimately show ?thesis using ab conn_trans by blast
  next
    case 4
    with eq f' x y have "f x = f y" by simp
    then show ?thesis using old x y by blast
  qed
next
  fix x y assume x: "x \<in> V" and y: "y \<in> V" and xy: "(x, y) \<in> conn (insert (a, b) E)"
  have step: "\<And>u v. u \<in> V \<Longrightarrow> v \<in> V \<Longrightarrow> f u = f v \<Longrightarrow> f' u = f' v"
    using f' by simp
  have fab: "f' a = f' b" using f' a b by simp
  from xy have "y \<in> V \<and> f' x = f' y"
    unfolding conn_def
  proof (induction rule: rtrancl_induct)
    case base
    show ?case using x by simp
  next
    case (step z y)
    then have z: "z \<in> V" and xz: "f' x = f' z" by auto
    from step.hyps(2) consider "z = a" "y = b" | "z = b" "y = a"
      | "(z, y) \<in> E" | "(y, z) \<in> E" by auto
    then show ?case
    proof cases
      case 1 then show ?thesis using xz fab b by simp
    next
      case 2 then show ?thesis using xz fab a by simp
    next
      case 3
      then have "y \<in> V" using E by auto
      moreover have "(z, y) \<in> conn E" using 3 conn_edge by blast
      ultimately show ?thesis using f z xz \<open>\<And>u v. u \<in> V \<Longrightarrow> v \<in> V \<Longrightarrow> f u = f v \<Longrightarrow> f' u = f' v\<close> by metis
    next
      case 4
      then have "y \<in> V" using E by auto
      moreover have "(z, y) \<in> conn E" using 4 conn_edge by blast
      ultimately show ?thesis using f z xz \<open>\<And>u v. u \<in> V \<Longrightarrow> v \<in> V \<Longrightarrow> f u = f v \<Longrightarrow> f' u = f' v\<close> by metis
    qed
  qed
  then show "f' x = f' y" by simp
qed

lemma card_quotient_fixpoints:
  assumes fin: "finite V" and E: "E \<subseteq> V \<times> V"
    and fV: "\<forall>x \<in> V. f x \<in> V \<and> f (f x) = f x"
    and f: "\<forall>x \<in> V. \<forall>y \<in> V. (f x = f y) = ((x, y) \<in> conn E)"
  shows "card (V // conn E) = card {x \<in> V. f x = x}"
proof -
  let ?F = "{x \<in> V. f x = x}"
  let ?c = "\<lambda>r. {y \<in> V. f y = r}"
  have cls: "conn E `` {x} = ?c (f x)" if "x \<in> V" for x
  proof -
    have "(x, y) \<in> conn E \<longleftrightarrow> y \<in> V \<and> f y = f x" for y
      using that f conn_closed [OF E, of x y] by metis
    then show ?thesis by blast
  qed
  have "V // conn E = (\<lambda>x. conn E `` {x}) ` V"
    unfolding quotient_def by blast
  also have "\<dots> = (\<lambda>x. ?c (f x)) ` V" using cls by (intro image_cong) auto
  also have "\<dots> = ?c ` (f ` V)" by blast
  also have "f ` V = ?F" using fV by force
  finally have "V // conn E = ?c ` ?F" .
  moreover have "inj_on ?c ?F"
  proof (rule inj_onI)
    fix r s assume r: "r \<in> ?F" and s: "s \<in> ?F" and eq: "?c r = ?c s"
    from r have "r \<in> ?c r" by simp
    with eq have "r \<in> ?c s" by simp
    with r show "r = s" by simp
  qed
  ultimately show ?thesis by (simp add: card_image)
qed

definition edge_pairs :: "edge list \<Rightarrow> (int \<times> int) set" where
  "edge_pairs es = (\<lambda>e. (fst e, fst (snd e))) ` set es"

definition components :: "int \<Rightarrow> edge list \<Rightarrow> int set set" where
  "components N es = {0..<N} // conn (edge_pairs es)"

definition edges_within :: "int \<Rightarrow> edge list \<Rightarrow> bool" where
  "edges_within N es =
     (\<forall>e \<in> set es. 0 \<le> fst e \<and> fst e < N \<and> 0 \<le> fst (snd e) \<and> fst (snd e) < N)"

lemma rep_of_idem:
  assumes "uf_inv root" "x \<in> nodes root"
  shows "rep_of root x \<in> nodes root \<and> rep_of root (rep_of root x) = rep_of root x"
proof -
  from rep_of_root [OF assms] have r: "rep_of root x \<in> nodes root"
    "root ! nat (rep_of root x) = rep_of root x" by auto
  then have "rep root (rep_of root x) (rep_of root x)"
    by - (rule rep.rep_root, auto simp: nodes_def)
  then show ?thesis using r rep_of_eq by blast
qed

lemma card_components_step:
  assumes fin: "finite V" and E: "E \<subseteq> V \<times> V" and a: "a \<in> V" and b: "b \<in> V"
    and fV: "\<forall>x \<in> V. f x \<in> V \<and> f (f x) = f x"
    and f: "\<forall>x \<in> V. \<forall>y \<in> V. (f x = f y) = ((x, y) \<in> conn E)"
    and f': "\<forall>x \<in> V. f' x = (if f x = f a then f b else f x)"
  shows "card (V // conn (insert (a, b) E)) + (if f a = f b then 0 else 1) = card (V // conn E)"
proof -
  have E': "insert (a, b) E \<subseteq> V \<times> V" using E a b by auto
  have f'V: "\<forall>x \<in> V. f' x \<in> V \<and> f' (f' x) = f' x"
  proof
    fix x assume x: "x \<in> V"
    show "f' x \<in> V \<and> f' (f' x) = f' x"
    proof (cases "f x = f a")
      case True
      then have fx: "f' x = f b" using f' x by simp
      have "f' (f b) = f b" using f' fV b by simp
      with fx fV b show ?thesis by simp
    next
      case False
      then have fx: "f' x = f x" using f' x by simp
      have "f x \<in> V" "f (f x) = f x" using fV x by auto
      then have "f' (f x) = f x" using f' False by simp
      with fx fV x show ?thesis by simp
    qed
  qed
  have c1: "card (V // conn E) = card {x \<in> V. f x = x}"
    by (rule card_quotient_fixpoints [OF fin E fV f])
  have c2: "card (V // conn (insert (a, b) E)) = card {x \<in> V. f' x = x}"
    by (rule card_quotient_fixpoints [OF fin E' f'V conn_insert [OF E a b f f']])
  show ?thesis
  proof (cases "f a = f b")
    case True
    then have "\<forall>x \<in> V. f' x = f x" using f' by simp
    then have "{x \<in> V. f' x = x} = {x \<in> V. f x = x}" by auto
    with c1 c2 True show ?thesis by simp
  next
    case False
    have "{x \<in> V. f' x = x} = {x \<in> V. f x = x} - {f a}"
    proof (intro set_eqI iffI)
      fix x assume "x \<in> {x \<in> V. f' x = x}"
      then have x: "x \<in> V" "f' x = x" by auto
      show "x \<in> {x \<in> V. f x = x} - {f a}"
      proof (cases "f x = f a")
        case True
        with x f' have xb: "x = f b" by simp
        then have "f x = f b" using fV b by simp
        with True False show ?thesis by simp
      next
        case F: False
        with x f' have "f x = x" by simp
        with F x show ?thesis by auto
      qed
    next
      fix x assume "x \<in> {x \<in> V. f x = x} - {f a}"
      then have x: "x \<in> V" "f x = x" "x \<noteq> f a" by auto
      then have "f' x = x" using f' by simp
      with x show "x \<in> {x \<in> V. f' x = x}" by simp
    qed
    moreover have "f a \<in> {x \<in> V. f x = x}" using fV a by simp
    moreover have "finite {x \<in> V. f x = x}" using fin by simp
    ultimately have "card {x \<in> V. f' x = x} + 1 = card {x \<in> V. f x = x}"
      by (metis (no_types, lifting) One_nat_def add.right_neutral add_Suc_right card_Suc_Diff1)
    with c1 c2 False show ?thesis by simp
  qed
qed

lemma finite_nodes: "finite (nodes root)"
  by (simp add: nodes_def)

lemma kruskals_for_correct:
  assumes "uf_inv root" "edge_pairs es \<subseteq> nodes root \<times> nodes root"
    "E \<subseteq> nodes root \<times> nodes root"
    "\<forall>x \<in> nodes root. \<forall>y \<in> nodes root. (rep_of root x = rep_of root y) = ((x, y) \<in> conn E)"
    "length root < frames"
  shows "\<exists>tr. kruskals_for frames es root ov = Inr (ov @ tr) \<and> map fst tr = es \<and>
           length (filter snd tr) + card (nodes root // conn (E \<union> edge_pairs es)) =
             card (nodes root // conn E)"
  using assms
proof (induction es arbitrary: root ov E)
  case Nil
  show ?case by (simp add: edge_pairs_def)
next
  case (Cons e es)
  obtain a b wt where e: "e = (a, b, wt)" by (cases e) auto
  let ?V = "nodes root"
  have a: "a \<in> ?V" and b: "b \<in> ?V" and es: "edge_pairs es \<subseteq> ?V \<times> ?V"
    using Cons.prems(2) e by (auto simp: edge_pairs_def)
  have fr: "length root \<le> frames" using Cons.prems(5) by simp
  from find_uf_ok [OF Cons.prems(1) a fr] obtain root1 where r1:
    "find_uf frames root a = Inr (root1, rep_of root a)" "length root1 = length root"
    "uf_inv root1" "\<forall>y \<in> ?V. rep_of root1 y = rep_of root y" by blast
  have n1: "nodes root1 = ?V" using r1 by (simp add: nodes_def)
  from find_uf_ok [OF r1(3), of b frames] b n1 fr r1(2) obtain root2 where r2:
    "find_uf frames root1 b = Inr (root2, rep_of root1 b)" "length root2 = length root1"
    "uf_inv root2" "\<forall>y \<in> ?V. rep_of root2 y = rep_of root1 y" by auto
  have n2: "nodes root2 = ?V" using r1 r2 by (simp add: nodes_def)
  have fr2: "length root2 < frames" using r1(2) r2(2) Cons.prems(5) by simp
  have eq2: "\<forall>y \<in> ?V. rep_of root2 y = rep_of root y" using r1 r2 by simp
  have fb: "rep_of root1 b = rep_of root b" using r1 b by simp
  have I2: "\<forall>x \<in> ?V. \<forall>y \<in> ?V. (rep_of root2 x = rep_of root2 y) = ((x, y) \<in> conn E)"
    using Cons.prems(4) eq2 by simp
  have fV: "\<forall>x \<in> ?V. rep_of root2 x \<in> ?V \<and> rep_of root2 (rep_of root2 x) = rep_of root2 x"
    using rep_of_idem [OF r2(3)] n2 by simp
  have Un: "E \<union> edge_pairs (e # es) = insert (a, b) E \<union> edge_pairs es"
    using e by (simp add: edge_pairs_def)
  have E': "insert (a, b) E \<subseteq> ?V \<times> ?V" using Cons.prems(3) a b by auto
  show ?case
  proof (cases "rep_of root a = rep_of root b")
    case True
    have f': "\<forall>x \<in> ?V. rep_of root2 x =
        (if rep_of root2 x = rep_of root2 a then rep_of root2 b else rep_of root2 x)"
      using True eq2 a b by simp
    have I2': "\<forall>x \<in> ?V. \<forall>y \<in> ?V.
        (rep_of root2 x = rep_of root2 y) = ((x, y) \<in> conn (insert (a, b) E))"
      by (rule conn_insert [OF Cons.prems(3) a b I2 f'])
    have cnt: "card (?V // conn (insert (a, b) E)) = card (?V // conn E)"
      using card_components_step [OF finite_nodes Cons.prems(3) a b fV I2 f'] True eq2 a b
      by simp
    have step: "kruskals_for frames (e # es) root ov =
        kruskals_for frames es root2 (ov @ [(e, False)])"
      using r1 r2 fb True e by simp
    from Cons.IH [of root2 "insert (a, b) E" "ov @ [(e, False)]"] r2(3) es E' I2' n2 fr2
    obtain tr where tr:
      "kruskals_for frames es root2 (ov @ [(e, False)]) = Inr ((ov @ [(e, False)]) @ tr)"
      "map fst tr = es"
      "length (filter snd tr) + card (?V // conn (insert (a, b) E \<union> edge_pairs es)) =
         card (?V // conn (insert (a, b) E))"
      by auto
    let ?tr = "(e, False) # tr"
    have R1: "kruskals_for frames (e # es) root ov = Inr (ov @ ?tr)" using step tr(1) by simp
    have R2: "map fst ?tr = e # es" using tr(2) by simp
    have R3: "length (filter snd ?tr) + card (?V // conn (E \<union> edge_pairs (e # es))) =
         card (?V // conn E)"
    proof -
      have A: "card (?V // conn (E \<union> edge_pairs (e # es))) =
          card (?V // conn (insert (a, b) E \<union> edge_pairs es))"
        unfolding Un ..
      have B: "length (filter snd ?tr) = length (filter snd tr) + 0"
        by simp
      from A B tr(3) cnt show ?thesis by linarith
    qed
    show ?thesis
    proof (intro exI [of _ ?tr] conjI)
      show "kruskals_for frames (e # es) root ov = Inr (ov @ ?tr)" by (rule R1)
      show "map fst ?tr = e # es" by (rule R2)
      show "length (filter snd ?tr) + card (?V // conn (E \<union> edge_pairs (e # es))) =
         card (?V // conn E)" by (rule R3)
    qed
  next
    case False
    have ne2: "rep_of root2 a \<noteq> rep_of root2 b" using False eq2 a b by simp
    from join_ok [OF r2(3), of a b frames] a b n2 ne2 fr2 obtain root3 where r3:
      "join frames root2 a b = Inr root3" "length root3 = length root2" "uf_inv root3"
      "\<forall>y \<in> ?V. rep_of root3 y =
         (if rep_of root2 y = rep_of root2 a then rep_of root2 b else rep_of root2 y)"
      by auto
    have n3: "nodes root3 = ?V" using r3 n2 by (simp add: nodes_def)
    have fr3: "length root3 < frames" using r3(2) fr2 by simp
    have I2': "\<forall>x \<in> ?V. \<forall>y \<in> ?V.
        (rep_of root3 x = rep_of root3 y) = ((x, y) \<in> conn (insert (a, b) E))"
      by (rule conn_insert [OF Cons.prems(3) a b I2 r3(4)])
    have cnt: "card (?V // conn (insert (a, b) E)) + 1 = card (?V // conn E)"
      using card_components_step [OF finite_nodes Cons.prems(3) a b fV I2 r3(4)] ne2
      by simp
    have step: "kruskals_for frames (e # es) root ov =
        kruskals_for frames es root3 (ov @ [(e, True)])"
      using r1 r2 r3 fb False e by simp
    from Cons.IH [of root3 "insert (a, b) E" "ov @ [(e, True)]"] r3(3) es E' I2' n3 fr3
    obtain tr where tr:
      "kruskals_for frames es root3 (ov @ [(e, True)]) = Inr ((ov @ [(e, True)]) @ tr)"
      "map fst tr = es"
      "length (filter snd tr) + card (?V // conn (insert (a, b) E \<union> edge_pairs es)) =
         card (?V // conn (insert (a, b) E))"
      by auto
    let ?tr = "(e, True) # tr"
    have R1: "kruskals_for frames (e # es) root ov = Inr (ov @ ?tr)" using step tr(1) by simp
    have R2: "map fst ?tr = e # es" using tr(2) by simp
    have R3: "length (filter snd ?tr) + card (?V // conn (E \<union> edge_pairs (e # es))) =
         card (?V // conn E)"
    proof -
      have A: "card (?V // conn (E \<union> edge_pairs (e # es))) =
          card (?V // conn (insert (a, b) E \<union> edge_pairs es))"
        unfolding Un ..
      have B: "length (filter snd ?tr) = length (filter snd tr) + 1"
        by simp
      from A B tr(3) cnt show ?thesis by linarith
    qed
    show ?thesis
    proof (intro exI [of _ ?tr] conjI)
      show "kruskals_for frames (e # es) root ov = Inr (ov @ ?tr)" by (rule R1)
      show "map fst ?tr = e # es" by (rule R2)
      show "length (filter snd ?tr) + card (?V // conn (E \<union> edge_pairs (e # es))) =
         card (?V // conn E)" by (rule R3)
    qed
  qed
qed

definition scenario_state :: module_state where
  "scenario_state =
     \<lparr>adj_list = scenario_graph,
      edge_weights_labels = [(0, 1, 5), (1, 2, 3), (2, 3, 1), (0, 3, 10)]\<rparr>"

definition gap_state :: module_state where
  "gap_state =
     \<lparr>adj_list = [(0, [(1, 2)]), (2, [(1, 0)])], edge_weights_labels = [(0, 2, 1)]\<rparr>"

definition sorted_edges :: "module_state \<Rightarrow> edge list" where
  "sorted_edges st = sort_key (\<lambda>x. snd (snd x)) (edge_weights_labels st)"

lemma init_rep: "i < n \<Longrightarrow> rep (map int [0..<n]) (int i) (int i)"
  by (rule rep.rep_root) auto

lemma init_uf_inv: "uf_inv (map int [0..<n])"
  unfolding uf_inv_def using init_rep by auto

lemma init_rep_of: "x \<in> nodes (map int [0..<n]) \<Longrightarrow> rep_of (map int [0..<n]) x = x"
proof -
  assume "x \<in> nodes (map int [0..<n])"
  then have "nat x < n" "int (nat x) = x" by (auto simp: nodes_def)
  with init_rep [of "nat x" n] show ?thesis by (simp add: rep_of_eq)
qed

lemma conn_empty: "conn {} = Id"
  by (simp add: conn_def)

lemma kruskals_correct:
  assumes "edges_within N (edge_weights_labels st)" "nat N < frames"
  shows "\<exists>tr. kruskals frames G N st = (Inr tr, st\<lparr>edge_weights_labels := sorted_edges st\<rparr>) \<and>
           map fst tr = sorted_edges st \<and>
           length (filter snd tr) + card (components N (edge_weights_labels st)) = nat N"
proof -
  let ?root = "map int [0..<nat N]"
  let ?es = "sorted_edges st"
  have V: "nodes ?root = {0..<N}" by (auto simp: nodes_def)
  have set_es: "set ?es = set (edge_weights_labels st)" by (simp add: sorted_edges_def)
  have pairs: "edge_pairs ?es = edge_pairs (edge_weights_labels st)"
    by (simp add: edge_pairs_def set_es)
  have within: "edge_pairs ?es \<subseteq> nodes ?root \<times> nodes ?root"
    using assms set_es unfolding V edge_pairs_def edges_within_def by auto
  have I2: "\<forall>x \<in> nodes ?root. \<forall>y \<in> nodes ?root.
      (rep_of ?root x = rep_of ?root y) = ((x, y) \<in> conn {})"
    by (simp add: init_rep_of conn_empty)
  have fr: "length ?root < frames" using assms(2) by simp
  from kruskals_for_correct [OF init_uf_inv within _ I2 fr, of "[]"]
  obtain tr where tr: "kruskals_for frames ?es ?root [] = Inr tr" "map fst tr = ?es"
    "length (filter snd tr) + card (nodes ?root // conn ({} \<union> edge_pairs ?es)) =
       card (nodes ?root // conn {})"
    by auto
  have "nodes ?root // conn {} = (\<lambda>x. {x}) ` nodes ?root"
    by (auto simp: conn_empty quotient_def)
  then have "card (nodes ?root // conn {}) = card (nodes ?root)"
    by (simp add: card_image)
  also have "\<dots> = nat N" by (simp add: V)
  finally have c0: "card (nodes ?root // conn {}) = nat N" .
  have c1: "nodes ?root // conn ({} \<union> edge_pairs ?es) = components N (edge_weights_labels st)"
    by (simp add: components_def V pairs)
  have "kruskals frames G N st = (Inr tr, st\<lparr>edge_weights_labels := ?es\<rparr>)"
    using tr(1) assms(2) by (simp add: kruskals_def sorted_edges_def Let_def)
  with tr(2) tr(3) c0 c1 show ?thesis by auto
qed


definition forest_state :: module_state where
  "forest_state =
     \<lparr>adj_list = [(0, [(4, 1)]), (1, [(4, 0)]), (2, [(2, 3)]), (3, [(2, 2)])],
      edge_weights_labels = [(0, 1, 4), (2, 3, 2)]\<rparr>"

text \<open>Two nodes 1 and 3, not the identifiers 0 and 1, and the edge between them.\<close>

definition sparse_state :: module_state where
  "sparse_state =
     \<lparr>adj_list = [(1, [(4, 3)]), (3, [(4, 1)])], edge_weights_labels = [(1, 3, 4)]\<rparr>"

text \<open>Four nodes on a path, and the edge that closes the cycle, heaviest.\<close>

definition chain_state :: module_state where
  "chain_state =
     \<lparr>adj_list = [(0, [(0, 1), (9, 3)]), (1, [(0, 0), (1, 2)]),
                  (2, [(1, 1), (2, 3)]), (3, [(2, 2), (9, 0)])],
      edge_weights_labels = [(0, 1, 0), (1, 2, 1), (2, 3, 2), (0, 3, 9)]\<rparr>"

section \<open>dijk\<close>

text \<open>
  \<^verbatim>\<open>INF = int(2e9)\<close>, the distance of a node not reached yet.  The constant is named
  \<open>INF_val\<close> here.
\<close>

definition INF_val :: int where
  "INF_val = 2000000000"

text \<open>The dict \<^verbatim>\<open>dists\<close>, from node to its best known distance.\<close>

type_synonym dist_table = "int \<rightharpoonup> int"

text \<open>
  \<^verbatim>\<open>heap\<close> holds the tuples \<^verbatim>\<open>(distance, node)\<close>.  \<^verbatim>\<open>heapq\<close> is Python's library and is
  taken by its contract: \<^verbatim>\<open>heappush\<close> adds an item, \<^verbatim>\<open>heappop\<close> removes and returns the
  smallest one in Python's order of tuples (first components, then second), and raises
  IndexError on an empty heap.  The heap is kept as the list of its items; the position
  of an item in the library's array is not observable through these two calls.
\<close>

definition tuple_le :: "int \<times> int \<Rightarrow> int \<times> int \<Rightarrow> bool" where
  "tuple_le x y = (fst x < fst y \<or> (fst x = fst y \<and> snd x \<le> snd y))"

fun heap_min :: "int \<times> int \<Rightarrow> (int \<times> int) list \<Rightarrow> int \<times> int" where
  "heap_min m [] = m"
| "heap_min m (x # xs) = heap_min (if tuple_le m x then m else x) xs"

definition hpush :: "(int \<times> int) list \<Rightarrow> int \<times> int \<Rightarrow> (int \<times> int) list" where
  "hpush h x = h @ [x]"

definition hpop :: "(int \<times> int) list \<Rightarrow> error + (int \<times> int) \<times> (int \<times> int) list" where
  "hpop h =
     (case h of
        [] \<Rightarrow> Inl IndexError
      | x # xs \<Rightarrow> (let m = heap_min x xs in Inr (m, remove1 m h)))"

text \<open>
  The locals of \<^verbatim>\<open>dijk\<close> that the loop updates.  \<^verbatim>\<open>animation_dists\<close> receives a copy of
  \<^verbatim>\<open>dists\<close> at each relaxation, \<^verbatim>\<open>order_visited\<close> the node relaxed.
\<close>

record dijk_state =
  heap :: "(int \<times> int) list"
  dists :: dist_table
  order_visited :: "int list"
  animation_dists :: "dist_table list"

text \<open>
  The inner loop \<^verbatim>\<open>for wt, node in graph[cur]\<close>.  \<^verbatim>\<open>dists[cur]\<close> is read before
  \<^verbatim>\<open>dists[node]\<close>; either lookup raises KeyError on a missing key.
\<close>

fun dijk_for :: "int \<Rightarrow> adjacency \<Rightarrow> dijk_state \<Rightarrow> error + dijk_state" where
  "dijk_for cur [] s = Inr s"
| "dijk_for cur ((wt, node) # rest) s =
     (case dists s cur of
        None \<Rightarrow> Inl (KeyError cur)
      | Some dc \<Rightarrow>
          (case dists s node of
             None \<Rightarrow> Inl (KeyError node)
           | Some dn \<Rightarrow>
               if dc + wt < dn
               then (let dists' = (dists s)(node \<mapsto> dc + wt) in
                     dijk_for cur rest
                       \<lparr>heap = hpush (heap s) (dc + wt, node),
                        dists = dists',
                        order_visited = order_visited s @ [node],
                        animation_dists = animation_dists s @ [dists']\<rparr>)
               else dijk_for cur rest s))"

text \<open>
  The loop \<^verbatim>\<open>while heap\<close>.  Nothing in the code bounds the number of its rounds (with a
  negative weight it need not end), hence the option: \<open>None\<close> is a run that does not
  return.  That it returns on every well-formed graph with non-negative weights is
  proved below.
\<close>

partial_function (option) dijk_while :: "graph \<Rightarrow> dijk_state \<Rightarrow> (error + dijk_state) option" where
  "dijk_while graph s =
     (case heap s of
        [] \<Rightarrow> Some (Inr s)
      | _ # _ \<Rightarrow>
          (case hpop (heap s) of
             Inl e \<Rightarrow> Some (Inl e)
           | Inr (item, heap') \<Rightarrow>
               (let cur = snd item in
                case graph_get graph cur of
                  Inl e \<Rightarrow> Some (Inl e)
                | Inr nbrs \<Rightarrow>
                    (case dijk_for cur nbrs (s\<lparr>heap := heap'\<rparr>) of
                       Inl e \<Rightarrow> Some (Inl e)
                     | Inr s' \<Rightarrow> dijk_while graph s'))))"

declare dijk_while.simps [code]

text \<open>
  \<^verbatim>\<open>dijk(graph, start)\<close>: the result is the pair
  \<^verbatim>\<open>(animation_dists, order_visited)\<close>.
\<close>

definition dijk ::
  "graph \<Rightarrow> int \<Rightarrow> (error + dist_table list \<times> int list) option" where
  "dijk graph start =
     (let dists0 = map_of (zip (keys graph) (map (\<lambda>i. INF_val) [0..<length (keys graph)]));
          dists1 = dists0(start \<mapsto> 0);
          s = \<lparr>heap = [(0, start)], dists = dists1, order_visited = [start],
               animation_dists = [dists1]\<rparr>
      in map_option (map_sum id (\<lambda>s'. (animation_dists s', order_visited s')))
           (dijk_while graph s))"

text \<open>Two nodes joined by an edge of weight 3000000000, above the sentinel.\<close>

definition far_graph :: graph where
  "far_graph = [(0, [(3000000000, 1)]), (1, [(3000000000, 0)])]"

subsection \<open>The trace of dijk\<close>

text \<open>
  \<open>relax_step d d' n\<close>: the table \<open>d'\<close> is \<open>d\<close> with the distance of the one node \<open>n\<close>
  lowered: one relaxation event.  \<open>trace_ok ad ov\<close>: the two lists have the same
  length, are not empty, and every snapshot after the first comes from the one before
  by a relaxation of the node at the same index of \<open>ov\<close>.
\<close>

definition relax_step :: "dist_table \<Rightarrow> dist_table \<Rightarrow> int \<Rightarrow> bool" where
  "relax_step d d' n = (\<exists>old new. d n = Some old \<and> new < old \<and> d' = d(n \<mapsto> new))"

definition trace_ok :: "dist_table list \<Rightarrow> int list \<Rightarrow> bool" where
  "trace_ok ad ov =
     (length ad = length ov \<and> ad \<noteq> [] \<and>
      (\<forall>i. Suc i < length ad \<longrightarrow> relax_step (ad ! i) (ad ! Suc i) (ov ! Suc i)))"

lemma trace_ok_append:
  assumes "trace_ok ad ov" "relax_step (last ad) d' n"
  shows "trace_ok (ad @ [d']) (ov @ [n])"
  unfolding trace_ok_def
proof (intro conjI allI impI)
  show "length (ad @ [d']) = length (ov @ [n])" using assms by (simp add: trace_ok_def)
  show "ad @ [d'] \<noteq> []" by simp
  fix i assume i: "Suc i < length (ad @ [d'])"
  have len: "length ad = length ov" "ad \<noteq> []" using assms by (simp_all add: trace_ok_def)
  show "relax_step ((ad @ [d']) ! i) ((ad @ [d']) ! Suc i) ((ov @ [n]) ! Suc i)"
  proof (cases "Suc i < length ad")
    case True
    then have "relax_step (ad ! i) (ad ! Suc i) (ov ! Suc i)"
      using assms by (simp add: trace_ok_def)
    with True len show ?thesis by (simp add: nth_append)
  next
    case False
    with i have eq: "Suc i = length ad" by simp
    then have "ad ! i = last ad" using len by (metis diff_Suc_1 last_conv_nth)
    with eq len assms(2) show ?thesis by (simp add: nth_append)
  qed
qed

lemma dijk_for_trace:
  "dijk_for cur nbrs s = Inr s' \<Longrightarrow>
   trace_ok (animation_dists s) (order_visited s) \<Longrightarrow>
   last (animation_dists s) = dists s \<Longrightarrow>
   trace_ok (animation_dists s') (order_visited s') \<and> last (animation_dists s') = dists s' \<and>
   hd (animation_dists s') = hd (animation_dists s)"
proof (induction nbrs arbitrary: s)
  case Nil
  then show ?case by simp
next
  case (Cons e nbrs)
  obtain wt node where e: "e = (wt, node)" by (cases e)
  from Cons.prems(1) e obtain dc dn where d: "dists s cur = Some dc" "dists s node = Some dn"
    by (auto split: option.splits)
  show ?case
  proof (cases "dc + wt < dn")
    case True
    let ?d = "(dists s)(node \<mapsto> dc + wt)"
    let ?s = "\<lparr>heap = hpush (heap s) (dc + wt, node), dists = ?d,
               order_visited = order_visited s @ [node],
               animation_dists = animation_dists s @ [?d]\<rparr>"
    from Cons.prems(1) e d True have run: "dijk_for cur nbrs ?s = Inr s'"
      by (simp add: Let_def)
    have "relax_step (last (animation_dists s)) ?d node"
      unfolding relax_step_def
      by (rule exI [of _ dn], rule exI [of _ "dc + wt"]) (use d True Cons.prems(3) in simp)
    from trace_ok_append [OF Cons.prems(2) this]
    have "trace_ok (animation_dists ?s) (order_visited ?s)" by simp
    moreover have "last (animation_dists ?s) = dists ?s" by simp
    moreover have "hd (animation_dists ?s) = hd (animation_dists s)"
      using Cons.prems(2) by (simp add: trace_ok_def)
    ultimately show ?thesis using Cons.IH [OF run] by simp
  next
    case False
    with Cons.prems(1) e d have "dijk_for cur nbrs s = Inr s'" by simp
    from Cons.IH [OF this Cons.prems(2) Cons.prems(3)] show ?thesis .
  qed
qed

lemma dijk_while_trace:
  "dijk_while g s = Some r \<Longrightarrow> r = Inr s' \<Longrightarrow>
   trace_ok (animation_dists s) (order_visited s) \<Longrightarrow>
   last (animation_dists s) = dists s \<Longrightarrow>
   trace_ok (animation_dists s') (order_visited s') \<and> last (animation_dists s') = dists s' \<and>
   hd (animation_dists s') = hd (animation_dists s)"
proof (induction arbitrary: s' rule: dijk_while.raw_induct [rotated 1, consumes 1])
  case (1 dijk_while' g s r)
  show ?case
  proof (cases "heap s")
    case Nil
    with 1 show ?thesis by simp
  next
    case (Cons x xs)
    with 1(2) 1(3) obtain c heap' nbrs s1 where
      st: "dijk_for c nbrs (s\<lparr>heap := heap'\<rparr>) = Inr s1"
        "dijk_while' g s1 = Some r"
      by (auto simp: Let_def split: sum.splits)
    from dijk_for_trace [OF st(1)] 1(4) 1(5)
    have "trace_ok (animation_dists s1) (order_visited s1) \<and> last (animation_dists s1) = dists s1 \<and>
        hd (animation_dists s1) = hd (animation_dists s)"
      by simp
    with 1(1) [OF st(2) 1(3)] show ?thesis by simp
  qed
qed

text \<open>The initial table and the initial loop state of \<^verbatim>\<open>dijk\<close>, named.\<close>

definition dists_init :: "graph \<Rightarrow> int \<Rightarrow> dist_table" where
  "dists_init g start =
     (map_of (zip (keys g) (map (\<lambda>i. INF_val) [0..<length (keys g)])))(start \<mapsto> 0)"

definition state_init :: "graph \<Rightarrow> int \<Rightarrow> dijk_state" where
  "state_init g start =
     \<lparr>heap = [(0, start)], dists = dists_init g start, order_visited = [start],
      animation_dists = [dists_init g start]\<rparr>"

lemma dijk_unfold:
  "dijk g start =
     map_option (map_sum id (\<lambda>s'. (animation_dists s', order_visited s')))
       (dijk_while g (state_init g start))"
  by (simp add: dijk_def state_init_def dists_init_def Let_def)

lemma dists_init_apply:
  "dists_init g start v =
     (if v = start then Some 0 else if v \<in> set (keys g) then Some INF_val else None)"
proof -
  let ?ys = "map (\<lambda>i. INF_val) [0..<length (keys g)]"
  have len: "length (keys g) = length ?ys" by simp
  show ?thesis
  proof (cases "v \<in> set (keys g)")
    case True
    with map_of_zip_is_Some [OF len, of v]
    obtain y where y: "map_of (zip (keys g) ?ys) v = Some y" by blast
    then have "(v, y) \<in> set (zip (keys g) ?ys)" by (rule map_of_SomeD)
    then have "y \<in> set ?ys" by (rule set_zip_rightD)
    then have "y = INF_val" by auto
    with y True show ?thesis by (simp add: dists_init_def)
  next
    case False
    with map_of_zip_is_None [OF len, of v] show ?thesis by (simp add: dists_init_def)
  qed
qed

lemma dijk_trace:
  assumes "dijk g start = Some (Inr (ad, ov))"
  shows "trace_ok ad ov \<and> hd ad = dists_init g start"
proof -
  from assms obtain z where z: "dijk_while g (state_init g start) = Some z"
    "map_sum id (\<lambda>s'. (animation_dists s', order_visited s')) z = Inr (ad, ov)"
    by (auto simp: dijk_unfold)
  then obtain s' where s': "dijk_while g (state_init g start) = Some (Inr s')"
    "ad = animation_dists s'" "ov = order_visited s'"
    by (cases z) auto
  have "trace_ok (animation_dists (state_init g start)) (order_visited (state_init g start))"
    by (simp add: trace_ok_def state_init_def)
  from dijk_while_trace [OF s'(1) refl this] s' show ?thesis by (simp add: state_init_def)
qed

lemma relax_step_le:
  "relax_step d d' n \<Longrightarrow> d v = Some a \<Longrightarrow> \<exists>b. d' v = Some b \<and> b \<le> a"
  unfolding relax_step_def by (cases "v = n") auto

lemma trace_ok_mono:
  assumes "trace_ok ad ov"
  shows "i \<le> j \<Longrightarrow> j < length ad \<Longrightarrow> (ad ! i) v = Some a \<Longrightarrow> \<exists>b. (ad ! j) v = Some b \<and> b \<le> a"
proof (induction j)
  case 0
  then show ?case by simp
next
  case (Suc j)
  show ?case
  proof (cases "i = Suc j")
    case True
    with Suc.prems show ?thesis by simp
  next
    case False
    with Suc.prems have "i \<le> j" "j < length ad" by simp_all
    from Suc.IH [OF this Suc.prems(3)] obtain b where b: "(ad ! j) v = Some b" "b \<le> a" by blast
    from assms Suc.prems(2) have "relax_step (ad ! j) (ad ! Suc j) (ov ! Suc j)"
      by (simp add: trace_ok_def)
    from relax_step_le [OF this b(1)] b(2) show ?thesis by force
  qed
qed

subsection \<open>Reference shortest paths, and the invariant of the loop\<close>

text \<open>
  The reference definition, independent of the code: \<open>walk g s v d\<close> is a walk of total
  weight \<open>d\<close> from \<open>s\<close> to \<open>v\<close> along entries of the adjacency list; \<open>is_dist g s v d\<close>
  says that \<open>d\<close> is the least weight of such a walk, \<open>reachable g s v\<close> that there is
  one.  On the symmetric adjacency lists that \<^verbatim>\<open>create_networkx_graph\<close> builds, the
  nodes reachable from \<open>s\<close> are the connected component of \<open>s\<close>.
\<close>

definition nonneg :: "graph \<Rightarrow> bool" where
  "nonneg graph = (\<forall>kv \<in> set graph. \<forall>e \<in> set (snd kv). 0 \<le> fst e)"

inductive walk :: "graph \<Rightarrow> int \<Rightarrow> int \<Rightarrow> int \<Rightarrow> bool" for g s where
  walk_start: "walk g s s 0"
| walk_edge: "walk g s u d \<Longrightarrow> map_of g u = Some nbrs \<Longrightarrow> (w, v) \<in> set nbrs \<Longrightarrow>
              walk g s v (d + w)"

definition is_dist :: "graph \<Rightarrow> int \<Rightarrow> int \<Rightarrow> int \<Rightarrow> bool" where
  "is_dist g s v d = (walk g s v d \<and> (\<forall>d'. walk g s v d' \<longrightarrow> d \<le> d'))"

definition reachable :: "graph \<Rightarrow> int \<Rightarrow> int \<Rightarrow> bool" where
  "reachable g s v = (\<exists>d. walk g s v d)"

text \<open>
  The invariant of the loop: every key has a distance between 0 and the sentinel, a
  distance below the sentinel is the weight of a walk, and the heap holds keys only.
  A node is \<open>settled\<close> when each of its edges is relaxed: no neighbour is farther than
  the node's distance plus the weight.  The loop keeps every node that is not on the
  heap settled; \<open>wsum\<close>, the sum of the distances plus the size of the heap, decreases
  in each round.
\<close>

definition dinv :: "graph \<Rightarrow> int \<Rightarrow> dijk_state \<Rightarrow> bool" where
  "dinv g start s =
     (dom (dists s) = set (keys g) \<and> dists s start = Some 0 \<and>
      (\<forall>v d. dists s v = Some d \<longrightarrow>
         0 \<le> d \<and> d \<le> INF_val \<and> (d < INF_val \<longrightarrow> walk g start v d)) \<and>
      snd ` set (heap s) \<subseteq> set (keys g))"

definition settled :: "graph \<Rightarrow> dist_table \<Rightarrow> int \<Rightarrow> bool" where
  "settled g d u =
     (\<forall>du nbrs w v. d u = Some du \<longrightarrow> du < INF_val \<longrightarrow> map_of g u = Some nbrs \<longrightarrow>
        (w, v) \<in> set nbrs \<longrightarrow> (\<exists>dv. d v = Some dv \<and> dv \<le> du + w))"

definition wsum :: "graph \<Rightarrow> dijk_state \<Rightarrow> nat" where
  "wsum g s = (\<Sum>v \<in> set (keys g). nat (the (dists s v))) + length (heap s)"

lemma sum_update_less:
  fixes f f' :: "'a \<Rightarrow> nat"
  assumes "finite K" "k \<in> K" "f' k < f k" "\<forall>x \<in> K. x \<noteq> k \<longrightarrow> f' x = f x"
  shows "sum f' K < sum f K"
proof -
  have "sum f K = f k + sum f (K - {k})" using assms(1,2) by (rule sum.remove)
  moreover have "sum f' K = f' k + sum f' (K - {k})" using assms(1,2) by (rule sum.remove)
  moreover have "sum f' (K - {k}) = sum f (K - {k})"
    using assms(4) by (intro sum.cong) auto
  ultimately show ?thesis using assms(3) by simp
qed

lemma settled_mono:
  assumes "settled g d u" "d' u = d u" "\<forall>v x. d v = Some x \<longrightarrow> (\<exists>y. d' v = Some y \<and> y \<le> x)"
  shows "settled g d' u"
  unfolding settled_def
proof (intro allI impI)
  fix du nbrs w v
  assume a: "d' u = Some du" "du < INF_val" "map_of g u = Some nbrs" "(w, v) \<in> set nbrs"
  with assms(1,2) obtain dv where dv: "d v = Some dv" "dv \<le> du + w"
    unfolding settled_def by metis
  with assms(3) obtain y where "d' v = Some y" "y \<le> dv" by blast
  with dv show "\<exists>dv. d' v = Some dv \<and> dv \<le> du + w" by auto
qed

lemma dijk_for_inv:
  assumes cur: "map_of g cur = Some all"
  shows "set nbrs \<subseteq> set all \<Longrightarrow>
     (\<forall>e \<in> set nbrs. snd e \<in> set (keys g) \<and> 0 \<le> fst e) \<Longrightarrow>
     dinv g start s \<Longrightarrow> dists s cur = Some dc \<Longrightarrow>
     (\<forall>u. u \<notin> snd ` set (heap s) \<longrightarrow> u \<noteq> cur \<longrightarrow> settled g (dists s) u) \<Longrightarrow>
     \<exists>s'. dijk_for cur nbrs s = Inr s' \<and> dinv g start s' \<and> dists s' cur = Some dc \<and>
       (\<forall>u. u \<notin> snd ` set (heap s') \<longrightarrow> u \<noteq> cur \<longrightarrow> settled g (dists s') u) \<and>
       (\<forall>v x. dists s v = Some x \<longrightarrow> (\<exists>y. dists s' v = Some y \<and> y \<le> x)) \<and>
       (\<forall>e \<in> set nbrs. \<exists>dv. dists s' (snd e) = Some dv \<and> dv \<le> dc + fst e) \<and>
       wsum g s' \<le> wsum g s"
proof (induction nbrs arbitrary: s)
  case Nil
  then show ?case by simp
next
  case (Cons e nbrs)
  obtain wt node where e: "e = (wt, node)" by (cases e)
  have node: "node \<in> set (keys g)" and wt: "0 \<le> wt" and edge: "(wt, node) \<in> set all"
    using Cons.prems(1,2) e by auto
  have sub: "set nbrs \<subseteq> set all" and ok: "\<forall>e \<in> set nbrs. snd e \<in> set (keys g) \<and> 0 \<le> fst e"
    using Cons.prems(1,2) by auto
  note inv = Cons.prems(3) and dc = Cons.prems(4) and pend = Cons.prems(5)
  have dom: "dom (dists s) = set (keys g)" and st: "dists s start = Some 0"
    and val: "\<And>v d. dists s v = Some d \<Longrightarrow>
        0 \<le> d \<and> d \<le> INF_val \<and> (d < INF_val \<longrightarrow> walk g start v d)"
    and hp: "snd ` set (heap s) \<subseteq> set (keys g)"
    using inv unfolding dinv_def by auto
  from node dom obtain dn where dn: "dists s node = Some dn" by auto
  have b: "0 \<le> dc" "dc \<le> INF_val" "0 \<le> dn" "dn \<le> INF_val"
    using val [OF dc] val [OF dn] by auto
  show ?case
  proof (cases "dc + wt < dn")
    case True
    let ?d1 = "(dists s)(node \<mapsto> dc + wt)"
    let ?s1 = "\<lparr>heap = hpush (heap s) (dc + wt, node), dists = ?d1,
               order_visited = order_visited s @ [node],
               animation_dists = animation_dists s @ [?d1]\<rparr>"
    have run: "dijk_for cur (e # nbrs) s = dijk_for cur nbrs ?s1"
      using e dc dn True by (simp add: Let_def)
    have ns: "node \<noteq> start" using True st dn b wt by auto
    have nc: "node \<noteq> cur" using True dc dn wt by auto
    have "dc < INF_val" using True b wt by linarith
    then have "walk g start cur dc" using val [OF dc] by simp
    from walk_edge [OF this cur edge] have wk: "walk g start node (dc + wt)" .
    have inv1: "dinv g start ?s1"
      unfolding dinv_def
    proof (intro conjI allI impI)
      show "dom (dists ?s1) = set (keys g)" using dom node by auto
      show "dists ?s1 start = Some 0" using st ns by simp
      show "snd ` set (heap ?s1) \<subseteq> set (keys g)" using hp node by (auto simp: hpush_def)
    next
      fix v d assume vd: "dists ?s1 v = Some d"
      show "0 \<le> d" using vd val [of v d] b wt by (cases "v = node") auto
      show "d \<le> INF_val" using vd val [of v d] b True by (cases "v = node") auto
    next
      fix v d assume vd: "dists ?s1 v = Some d" and "d < INF_val"
      then show "walk g start v d" using val [of v d] wk by (cases "v = node") auto
    qed
    have dc1: "dists ?s1 cur = Some dc" using dc nc by simp
    have mono1: "\<forall>v x. dists s v = Some x \<longrightarrow> (\<exists>y. dists ?s1 v = Some y \<and> y \<le> x)"
      using dn True by auto
    have pend1: "\<forall>u. u \<notin> snd ` set (heap ?s1) \<longrightarrow> u \<noteq> cur \<longrightarrow> settled g (dists ?s1) u"
    proof (intro allI impI)
      fix u assume u: "u \<notin> snd ` set (heap ?s1)" "u \<noteq> cur"
      then have un: "u \<noteq> node" and uh: "u \<notin> snd ` set (heap s)"
        by (auto simp: hpush_def image_iff)
      from pend uh u(2) have "settled g (dists s) u" by blast
      then show "settled g (dists ?s1) u"
        by (rule settled_mono) (use un mono1 in auto)
    qed
    have "(\<Sum>v \<in> set (keys g). nat (the (?d1 v))) < (\<Sum>v \<in> set (keys g). nat (the (dists s v)))"
      by (rule sum_update_less [of _ node]) (use node dn True b wt in auto)
    then have ws1: "wsum g ?s1 \<le> wsum g s" by (simp add: wsum_def hpush_def)
    from Cons.IH [OF sub ok inv1 dc1 pend1] obtain s' where s':
      "dijk_for cur nbrs ?s1 = Inr s'" "dinv g start s'" "dists s' cur = Some dc"
      "\<forall>u. u \<notin> snd ` set (heap s') \<longrightarrow> u \<noteq> cur \<longrightarrow> settled g (dists s') u"
      "\<forall>v x. dists ?s1 v = Some x \<longrightarrow> (\<exists>y. dists s' v = Some y \<and> y \<le> x)"
      "\<forall>e \<in> set nbrs. \<exists>dv. dists s' (snd e) = Some dv \<and> dv \<le> dc + fst e"
      "wsum g s' \<le> wsum g ?s1"
      by blast
    have mono: "\<forall>v x. dists s v = Some x \<longrightarrow> (\<exists>y. dists s' v = Some y \<and> y \<le> x)"
    proof (intro allI impI)
      fix v x assume "dists s v = Some x"
      with mono1 obtain y where y: "dists ?s1 v = Some y" "y \<le> x" by blast
      with s'(5) obtain z where "dists s' v = Some z" "z \<le> y" by blast
      with y show "\<exists>y. dists s' v = Some y \<and> y \<le> x" by auto
    qed
    have "dists ?s1 node = Some (dc + wt)" by simp
    with s'(5) obtain z where z: "dists s' node = Some z" "z \<le> dc + wt" by blast
    have edges: "\<forall>e' \<in> set (e # nbrs). \<exists>dv. dists s' (snd e') = Some dv \<and> dv \<le> dc + fst e'"
      using z s'(6) e by auto
    have "wsum g s' \<le> wsum g s" using s'(7) ws1 by linarith
    with run s'(1-4) mono edges show ?thesis by auto
  next
    case False
    have run: "dijk_for cur (e # nbrs) s = dijk_for cur nbrs s"
      using e dc dn False by simp
    from Cons.IH [OF sub ok inv dc pend] obtain s' where s':
      "dijk_for cur nbrs s = Inr s'" "dinv g start s'" "dists s' cur = Some dc"
      "\<forall>u. u \<notin> snd ` set (heap s') \<longrightarrow> u \<noteq> cur \<longrightarrow> settled g (dists s') u"
      "\<forall>v x. dists s v = Some x \<longrightarrow> (\<exists>y. dists s' v = Some y \<and> y \<le> x)"
      "\<forall>e \<in> set nbrs. \<exists>dv. dists s' (snd e) = Some dv \<and> dv \<le> dc + fst e"
      "wsum g s' \<le> wsum g s"
      by blast
    from s'(5) dn obtain z where z: "dists s' node = Some z" "z \<le> dn" by blast
    have edges: "\<forall>e' \<in> set (e # nbrs). \<exists>dv. dists s' (snd e') = Some dv \<and> dv \<le> dc + fst e'"
      using z s'(6) e False by auto
    with run s'(1-5) s'(7) show ?thesis by auto
  qed
qed

lemma heap_min_in: "heap_min m xs \<in> set (m # xs)"
  by (induction xs arbitrary: m) auto

lemma hpop_ok:
  assumes "h \<noteq> []"
  shows "\<exists>m. hpop h = Inr (m, remove1 m h) \<and> m \<in> set h"
proof -
  from assms obtain x xs where h: "h = x # xs" by (cases h) auto
  have "heap_min x xs \<in> set h" unfolding h by (rule heap_min_in)
  then show ?thesis unfolding hpop_def h by (simp add: Let_def)
qed

lemma dijk_while_total:
  assumes ok: "graph_ok g" and nn: "nonneg g"
  shows "dinv g start s \<Longrightarrow>
     (\<forall>u. u \<notin> snd ` set (heap s) \<longrightarrow> settled g (dists s) u) \<Longrightarrow>
     \<exists>s'. dijk_while g s = Some (Inr s') \<and> dinv g start s' \<and> (\<forall>u. settled g (dists s') u)"
proof (induction "wsum g s" arbitrary: s rule: less_induct)
  case less
  note inv = less.prems(1) and pend = less.prems(2)
  show ?case
  proof (cases "heap s")
    case Nil
    then have "dijk_while g s = Some (Inr s)" by (simp add: dijk_while.simps)
    moreover have "\<forall>u. settled g (dists s) u" using pend Nil by simp
    ultimately show ?thesis using inv by blast
  next
    case (Cons x xs)
    then have ne: "heap s \<noteq> []" by simp
    from hpop_ok [OF ne] obtain m where m: "hpop (heap s) = Inr (m, remove1 m (heap s))"
      "m \<in> set (heap s)" by blast
    define cur where "cur = snd m"
    have dom: "dom (dists s) = set (keys g)"
      and hp: "snd ` set (heap s) \<subseteq> set (keys g)"
      using inv unfolding dinv_def by auto
    have ck: "cur \<in> set (keys g)" using m(2) hp cur_def by auto
    then have "map_of g cur \<noteq> None" by (simp add: keys_def map_of_eq_None_iff)
    then obtain all where all: "map_of g cur = Some all" by auto
    from ck dom obtain dc where dc: "dists s cur = Some dc" by auto
    let ?s0 = "s\<lparr>heap := remove1 m (heap s)\<rparr>"
    have "set (remove1 m (heap s)) \<subseteq> set (heap s)" by (rule set_remove1_subset)
    then have "snd ` set (remove1 m (heap s)) \<subseteq> set (keys g)" using hp by blast
    then have inv0: "dinv g start ?s0"
      using inv unfolding dinv_def by simp
    have pend0: "\<forall>u. u \<notin> snd ` set (heap ?s0) \<longrightarrow> u \<noteq> cur \<longrightarrow> settled g (dists ?s0) u"
    proof (intro allI impI)
      fix u assume u: "u \<notin> snd ` set (heap ?s0)" "u \<noteq> cur"
      have "u \<notin> snd ` set (heap s)"
      proof
        assume "u \<in> snd ` set (heap s)"
        then obtain m' where m': "m' \<in> set (heap s)" "snd m' = u" by auto
        with u(2) cur_def have "m' \<noteq> m" by auto
        with m'(1) have "m' \<in> set (remove1 m (heap s))" by simp
        with m'(2) u(1) show False by force
      qed
      with pend show "settled g (dists ?s0) u" by simp
    qed
    have mem: "(cur, all) \<in> set g" using all by (rule map_of_SomeD)
    have edges_ok: "\<forall>e \<in> set all. snd e \<in> set (keys g) \<and> 0 \<le> fst e"
      using ok nn mem unfolding graph_ok_def nonneg_def by force
    have dc0: "dists ?s0 cur = Some dc" using dc by simp
    from dijk_for_inv [OF all subset_refl edges_ok inv0 dc0 pend0]
    obtain s1 where s1: "dijk_for cur all ?s0 = Inr s1" "dinv g start s1"
      "dists s1 cur = Some dc"
      "\<forall>u. u \<notin> snd ` set (heap s1) \<longrightarrow> u \<noteq> cur \<longrightarrow> settled g (dists s1) u"
      "\<forall>e \<in> set all. \<exists>dv. dists s1 (snd e) = Some dv \<and> dv \<le> dc + fst e"
      "wsum g s1 \<le> wsum g ?s0"
      by blast
    have setc: "settled g (dists s1) cur"
      unfolding settled_def using s1(3,5) all by force
    have pend1: "\<forall>u. u \<notin> snd ` set (heap s1) \<longrightarrow> settled g (dists s1) u"
      using s1(4) setc by blast
    have "length (remove1 m (heap s)) < length (heap s)"
      using m(2) by (simp add: length_remove1 ne)
    then have "wsum g ?s0 < wsum g s" by (simp add: wsum_def)
    with s1(6) have lt: "wsum g s1 < wsum g s" by linarith
    from less.hyps [OF lt s1(2) pend1] obtain s' where
      s': "dijk_while g s1 = Some (Inr s')" "dinv g start s'" "\<forall>u. settled g (dists s') u"
      by blast
    have "graph_get g cur = Inr all" using all by (simp add: graph_get_def)
    then have "dijk_while g s = dijk_while g s1"
      using Cons m(1) s1(1) cur_def
      by (subst dijk_while.simps) (simp add: Let_def)
    with s' show ?thesis by auto
  qed
qed

lemma walk_in_keys:
  assumes "graph_ok g" "start \<in> set (keys g)" "walk g start v d"
  shows "v \<in> set (keys g)"
  using assms(3)
proof (cases rule: walk.cases)
  case walk_start
  then show ?thesis using assms(2) by simp
next
  case (walk_edge u d' nbrs w)
  from walk_edge(3) have "(u, nbrs) \<in> set g" by (rule map_of_SomeD)
  with walk_edge(4) assms(1) show ?thesis unfolding graph_ok_def by force
qed

lemma walk_nonneg:
  assumes "nonneg g" "walk g start v d"
  shows "0 \<le> d"
  using assms(2)
proof (induction rule: walk.induct)
  case walk_start
  show ?case by simp
next
  case (walk_edge u d nbrs w v)
  from walk_edge(2) have "(u, nbrs) \<in> set g" by (rule map_of_SomeD)
  with walk_edge(3) assms(1) have "0 \<le> w" unfolding nonneg_def by force
  with walk_edge.IH show ?case by simp
qed

lemma final_lower:
  assumes ok: "graph_ok g" and nn: "nonneg g" and inv: "dinv g start s"
    and fin: "\<forall>u. settled g (dists s) u" and w: "walk g start v d"
  shows "\<exists>x. dists s v = Some x \<and> x \<le> d"
  using w
proof (induction rule: walk.induct)
  case walk_start
  show ?case using inv unfolding dinv_def by simp
next
  case (walk_edge u d nbrs w v)
  from walk_edge.IH obtain x where x: "dists s u = Some x" "x \<le> d" by blast
  from walk_edge(2) have mem: "(u, nbrs) \<in> set g" by (rule map_of_SomeD)
  with walk_edge(3) nn have w0: "0 \<le> w" unfolding nonneg_def by force
  from mem walk_edge(3) ok have "v \<in> set (keys g)" unfolding graph_ok_def by force
  with inv have "v \<in> dom (dists s)" unfolding dinv_def by simp
  then obtain y where y: "dists s v = Some y" by auto
  with inv have yb: "y \<le> INF_val" unfolding dinv_def by blast
  show ?case
  proof (cases "x < INF_val")
    case True
    from fin have "settled g (dists s) u" by blast
    with x(1) True walk_edge(2,3) obtain dv where "dists s v = Some dv" "dv \<le> x + w"
      unfolding settled_def by blast
    with x(2) show ?thesis by auto
  next
    case False
    with x(2) yb w0 have "y \<le> d + w" by linarith
    with y show ?thesis by simp
  qed
qed

lemma is_dist_ex:
  assumes nn: "nonneg g" and r: "reachable g start v"
  shows "\<exists>d. is_dist g start v d"
proof -
  let ?P = "\<lambda>n. walk g start v (int n)"
  from r obtain d where d: "walk g start v d" unfolding reachable_def by blast
  with nn have "0 \<le> d" by (rule walk_nonneg)
  with d have "?P (nat d)" by simp
  then have L: "?P (Least ?P)" by (rule LeastI)
  have "\<forall>d'. walk g start v d' \<longrightarrow> int (Least ?P) \<le> d'"
  proof (intro allI impI)
    fix d' assume d': "walk g start v d'"
    with nn have 0: "0 \<le> d'" by (rule walk_nonneg)
    with d' have "?P (nat d')" by simp
    then have "Least ?P \<le> nat d'" by (rule Least_le)
    with 0 show "int (Least ?P) \<le> d'" by linarith
  qed
  with L show ?thesis unfolding is_dist_def by blast
qed

lemma init_dinv:
  assumes "start \<in> set (keys g)"
  shows "dinv g start (state_init g start)"
  unfolding dinv_def
proof (intro conjI allI impI)
  show "dom (dists (state_init g start)) = set (keys g)"
    using assms by (auto simp: state_init_def dists_init_apply dom_def)
  show "dists (state_init g start) start = Some 0"
    by (simp add: state_init_def dists_init_apply)
  show "snd ` set (heap (state_init g start)) \<subseteq> set (keys g)"
    using assms by (simp add: state_init_def)
next
  fix v d assume vd: "dists (state_init g start) v = Some d"
  then show "0 \<le> d" "d \<le> INF_val"
    by (auto simp: state_init_def dists_init_apply INF_val_def split: if_splits)
next
  fix v d assume vd: "dists (state_init g start) v = Some d" and "d < INF_val"
  then have "v = start \<and> d = 0"
    by (auto simp: state_init_def dists_init_apply split: if_splits)
  then show "walk g start v d" by (simp add: walk_start)
qed

lemma init_pending:
  "\<forall>u. u \<notin> snd ` set (heap (state_init g start)) \<longrightarrow>
       settled g (dists (state_init g start)) u"
  unfolding settled_def
  by (auto simp: state_init_def dists_init_apply split: if_splits)

lemma dijk_final:
  assumes ok: "graph_ok g" and nn: "nonneg g" and st: "start \<in> set (keys g)"
  shows "\<exists>ad ov. dijk g start = Some (Inr (ad, ov)) \<and> trace_ok ad ov \<and>
           hd ad = dists_init g start \<and>
           (\<forall>v \<in> set (keys g). \<exists>x. last ad v = Some x \<and> x \<le> INF_val \<and>
              (x < INF_val \<longrightarrow> walk g start v x) \<and>
              (\<forall>d. walk g start v d \<longrightarrow> x \<le> d))"
proof -
  from dijk_while_total [OF ok nn init_dinv [OF st] init_pending]
  obtain s' where s': "dijk_while g (state_init g start) = Some (Inr s')"
    "dinv g start s'" "\<forall>u. settled g (dists s') u" by blast
  let ?ad = "animation_dists s'" and ?ov = "order_visited s'"
  have run: "dijk g start = Some (Inr (?ad, ?ov))"
    using s'(1) by (simp add: dijk_unfold)
  have "trace_ok (animation_dists (state_init g start)) (order_visited (state_init g start))"
    by (simp add: trace_ok_def state_init_def)
  from dijk_while_trace [OF s'(1) refl this]
  have tr: "trace_ok ?ad ?ov" and la: "last ?ad = dists s'" and hd: "hd ?ad = dists_init g start"
    by (simp_all add: state_init_def)
  have fin: "\<forall>v \<in> set (keys g). \<exists>x. last ?ad v = Some x \<and> x \<le> INF_val \<and>
              (x < INF_val \<longrightarrow> walk g start v x) \<and>
              (\<forall>d. walk g start v d \<longrightarrow> x \<le> d)"
  proof
    fix v assume "v \<in> set (keys g)"
    with s'(2) have "v \<in> dom (dists s')" unfolding dinv_def by simp
    then obtain x where x: "dists s' v = Some x" by auto
    with s'(2) have b: "x \<le> INF_val" "x < INF_val \<longrightarrow> walk g start v x"
      unfolding dinv_def by blast+
    have "\<forall>d. walk g start v d \<longrightarrow> x \<le> d"
    proof (intro allI impI)
      fix d assume "walk g start v d"
      from final_lower [OF ok nn s'(2,3) this] x show "x \<le> d" by auto
    qed
    with x b la show "\<exists>x. last ?ad v = Some x \<and> x \<le> INF_val \<and>
              (x < INF_val \<longrightarrow> walk g start v x) \<and>
              (\<forall>d. walk g start v d \<longrightarrow> x \<le> d)" by simp
  qed
  from run tr hd fin show ?thesis by blast
qed

lemma dijk_for_hd:
  "dijk_for cur nbrs s = Inr s' \<Longrightarrow> order_visited s \<noteq> [] \<Longrightarrow>
   order_visited s' \<noteq> [] \<and> hd (order_visited s') = hd (order_visited s)"
proof (induction nbrs arbitrary: s)
  case Nil
  then show ?case by simp
next
  case (Cons e nbrs)
  obtain wt node where e: "e = (wt, node)" by (cases e)
  from Cons.prems(1) e obtain dc dn where d: "dists s cur = Some dc" "dists s node = Some dn"
    by (auto split: option.splits)
  show ?case
  proof (cases "dc + wt < dn")
    case True
    let ?d = "(dists s)(node \<mapsto> dc + wt)"
    let ?s = "\<lparr>heap = hpush (heap s) (dc + wt, node), dists = ?d,
               order_visited = order_visited s @ [node],
               animation_dists = animation_dists s @ [?d]\<rparr>"
    from Cons.prems(1) e d True have run: "dijk_for cur nbrs ?s = Inr s'"
      by (simp add: Let_def)
    have "order_visited ?s \<noteq> []" by simp
    from Cons.IH [OF run this] Cons.prems(2) show ?thesis by simp
  next
    case False
    with Cons.prems(1) e d have "dijk_for cur nbrs s = Inr s'" by simp
    from Cons.IH [OF this Cons.prems(2)] show ?thesis .
  qed
qed

lemma dijk_while_hd:
  "dijk_while g s = Some r \<Longrightarrow> r = Inr s' \<Longrightarrow> order_visited s \<noteq> [] \<Longrightarrow>
   order_visited s' \<noteq> [] \<and> hd (order_visited s') = hd (order_visited s)"
proof (induction arbitrary: s' rule: dijk_while.raw_induct [rotated 1, consumes 1])
  case (1 dijk_while' g s r)
  show ?case
  proof (cases "heap s")
    case Nil
    with 1 show ?thesis by simp
  next
    case (Cons x xs)
    with 1(2) 1(3) obtain c heap' nbrs s1 where
      st: "dijk_for c nbrs (s\<lparr>heap := heap'\<rparr>) = Inr s1"
        "dijk_while' g s1 = Some r"
      by (auto simp: Let_def split: sum.splits)
    from dijk_for_hd [OF st(1)] 1(4)
    have "order_visited s1 \<noteq> [] \<and> hd (order_visited s1) = hd (order_visited s)"
      by simp
    with 1(1) [OF st(2) 1(3)] show ?thesis by simp
  qed
qed

lemma dijk_hd:
  assumes "dijk g start = Some (Inr (ad, ov))"
  shows "hd ov = start"
proof -
  from assms obtain z where z: "dijk_while g (state_init g start) = Some z"
    "map_sum id (\<lambda>s'. (animation_dists s', order_visited s')) z = Inr (ad, ov)"
    by (auto simp: dijk_unfold)
  then obtain s' where s': "dijk_while g (state_init g start) = Some (Inr s')"
    "ad = animation_dists s'" "ov = order_visited s'"
    by (cases z) auto
  have "order_visited (state_init g start) \<noteq> []" by (simp add: state_init_def)
  from dijk_while_hd [OF s'(1) refl this] s' show ?thesis by (simp add: state_init_def)
qed

lemma far_walks:
  "walk far_graph 0 v d \<Longrightarrow> (v = 0 \<and> 0 \<le> d) \<or> (v = 1 \<and> 3000000000 \<le> d)"
proof (induction rule: walk.induct)
  case walk_start
  show ?case by simp
next
  case (walk_edge u d nbrs w v)
  then show ?case by (auto simp: far_graph_def split: if_splits)
qed

lemma far_dist: "is_dist far_graph 0 1 3000000000"
proof -
  have "walk far_graph 0 0 0" by (rule walk_start)
  then have "walk far_graph 0 1 (0 + 3000000000)"
    by (rule walk_edge [where nbrs = "[(3000000000, 1)]"]) (simp_all add: far_graph_def)
  then have w: "walk far_graph 0 1 3000000000" by simp
  have "\<forall>d'. walk far_graph 0 1 d' \<longrightarrow> 3000000000 \<le> d'"
    using far_walks by fastforce
  with w show ?thesis unfolding is_dist_def by blast
qed


section \<open>Correctness of bfs\<close>

lemma reachable_start: "reachable g s s"
  unfolding reachable_def using walk_start by blast

lemma reachable_step:
  assumes "reachable g s u" "map_of g u = Some nbrs" "(w, v) \<in> set nbrs"
  shows "reachable g s v"
proof -
  from assms(1) obtain d where "walk g s u d" unfolding reachable_def by blast
  from walk_edge [OF this assms(2,3)] show ?thesis unfolding reachable_def by blast
qed

lemma closed_reachable:
  assumes "s \<in> V"
    and cl: "\<forall>u \<in> V. \<forall>nbrs. map_of g u = Some nbrs \<longrightarrow> snd ` set nbrs \<subseteq> V"
    and w: "walk g s x d"
  shows "x \<in> V"
  using w
proof (induction rule: walk.induct)
  case walk_start
  show ?case by (rule assms(1))
next
  case (walk_edge u d nbrs w v)
  with cl have "snd ` set nbrs \<subseteq> V" by blast
  with walk_edge(3) show ?case by force
qed

text \<open>
  The scenario graph and a second component, the two nodes 4 and 5 joined by an edge.
\<close>

definition split_graph :: graph where
  "split_graph =
     [(0, [(5, 1), (10, 3)]), (1, [(5, 0), (3, 2)]),
      (2, [(3, 1), (1, 3)]), (3, [(1, 2), (10, 0)]),
      (4, [(2, 5)]), (5, [(2, 4)])]"

text \<open>
  The invariant of the loop of \<^verbatim>\<open>bfs\<close>: the targets of the events are the visited
  nodes, each once; the queue holds visited nodes; every visited node is a key and is
  reachable from the start; and every visited node that has left the queue has all its
  neighbours visited.
\<close>

definition bfs_inv :: "graph \<Rightarrow> int \<Rightarrow> bfs_state \<Rightarrow> bool" where
  "bfs_inv g start st =
     (case st of (q, v, ord) \<Rightarrow>
        map snd ord = v \<and> distinct v \<and> set q \<subseteq> set v \<and> start \<in> set v \<and>
        set v \<subseteq> set (keys g) \<and> set v \<subseteq> {x. reachable g start x} \<and>
        fst ` set ord \<subseteq> {x. reachable g start x} \<and>
        ord \<noteq> [] \<and> hd ord = (start, start) \<and>
        (\<forall>u \<in> set v - set q. \<forall>nbrs. map_of g u = Some nbrs \<longrightarrow> snd ` set nbrs \<subseteq> set v))"

lemma bfs_inv_step:
  assumes ok: "graph_ok g" and inv: "bfs_inv g start (c # rest, v, ord)"
    and get: "map_of g c = Some nbrs"
    and run: "bfs_for c nbrs (c # rest, v, ord) = (q', v', ord')"
  shows "bfs_inv g start (tl q', v', ord')"
proof -
  from bfs_for_shape [OF run] obtain new where new:
    "q' = (c # rest) @ new" "v' = v @ new" "ord' = ord @ map (Pair c) new" "distinct new"
    "set new = snd ` set nbrs - set v" by blast
  from inv have I: "map snd ord = v" "distinct v" "set (c # rest) \<subseteq> set v" "start \<in> set v"
    "set v \<subseteq> set (keys g)" "set v \<subseteq> {x. reachable g start x}"
    "fst ` set ord \<subseteq> {x. reachable g start x}" "ord \<noteq> []" "hd ord = (start, start)"
    and cl: "\<forall>u \<in> set v - set (c # rest). \<forall>nbrs. map_of g u = Some nbrs \<longrightarrow>
        snd ` set nbrs \<subseteq> set v"
    unfolding bfs_inv_def by simp_all
  have tl: "tl q' = rest @ new" using new by simp
  have cr: "reachable g start c" using I(3,6) by auto
  have mem: "(c, nbrs) \<in> set g" using get by (rule map_of_SomeD)
  have newk: "set new \<subseteq> set (keys g)"
    using new(5) mem ok unfolding graph_ok_def by force
  have newr: "set new \<subseteq> {x. reachable g start x}"
  proof
    fix x assume "x \<in> set new"
    with new(5) obtain w where "(w, x) \<in> set nbrs" by force
    from reachable_step [OF cr get this] show "x \<in> {x. reachable g start x}" by simp
  qed
  have 1: "map snd ord' = v'" using new I(1) by (simp add: comp_def)
  have 2: "distinct v'" using new I(2) by auto
  have 3: "set (tl q') \<subseteq> set v'" unfolding tl using new I(3) by auto
  have 4: "start \<in> set v'" using new I(4) by simp
  have 5: "set v' \<subseteq> set (keys g)" using new I(5) newk by auto
  have 6: "set v' \<subseteq> {x. reachable g start x}" using new I(6) newr by auto
  have 7: "fst ` set ord' \<subseteq> {x. reachable g start x}"
    using new(3) I(7) cr by auto
  have 8: "ord' \<noteq> []" "hd ord' = (start, start)" using new(3) I(8,9) by simp_all
  have 9: "\<forall>u \<in> set v' - set (tl q'). \<forall>nbrs. map_of g u = Some nbrs \<longrightarrow>
      snd ` set nbrs \<subseteq> set v'"
  proof (intro ballI allI impI)
    fix u nb assume u: "u \<in> set v' - set (tl q')" and g: "map_of g u = Some nb"
    from u have uv: "u \<in> set v" "u \<notin> set rest" "u \<notin> set new"
      unfolding tl using new(2) by auto
    show "snd ` set nb \<subseteq> set v'"
    proof (cases "u = c")
      case True
      with g get have "nb = nbrs" by simp
      then show ?thesis using new(2,5) by auto
    next
      case False
      with uv have "u \<in> set v - set (c # rest)" by simp
      with cl g have "snd ` set nb \<subseteq> set v" by blast
      then show ?thesis using new(2) by auto
    qed
  qed
  from 1 2 3 4 5 6 7 8 9 show ?thesis unfolding bfs_inv_def by simp
qed

lemma bfs_while_correct:
  shows "graph_ok g \<Longrightarrow> bfs_inv g start st \<Longrightarrow>
     \<exists>tr. bfs_while g st = Inr tr \<and> tr \<noteq> [] \<and> hd tr = (start, start) \<and>
          distinct (map snd tr) \<and> set (map snd tr) = {x. reachable g start x} \<and>
          fst ` set tr \<subseteq> {x. reachable g start x}"
proof (induction g st rule: bfs_while.induct)
  case (1 graph queue bfs_visited order_visited)
  note ok = 1(2) and inv = 1(3)
  show ?case
  proof (cases queue)
    case Nil
    from inv Nil have I: "map snd order_visited = bfs_visited" "distinct bfs_visited"
      "start \<in> set bfs_visited" "set bfs_visited \<subseteq> {x. reachable graph start x}"
      "fst ` set order_visited \<subseteq> {x. reachable graph start x}" "order_visited \<noteq> []"
      "hd order_visited = (start, start)"
      and cl: "\<forall>u \<in> set bfs_visited. \<forall>nbrs. map_of graph u = Some nbrs \<longrightarrow>
        snd ` set nbrs \<subseteq> set bfs_visited"
      unfolding bfs_inv_def by simp_all
    have "{x. reachable graph start x} \<subseteq> set bfs_visited"
    proof
      fix x assume "x \<in> {x. reachable graph start x}"
      then obtain d where "walk graph start x d" unfolding reachable_def by blast
      from closed_reachable [OF I(3) cl this] show "x \<in> set bfs_visited" .
    qed
    with I(4) have eq: "set bfs_visited = {x. reachable graph start x}" by blast
    have r: "bfs_while graph (queue, bfs_visited, order_visited) = Inr order_visited"
      using Nil by simp
    have d: "distinct (map snd order_visited)" using I(1,2) by simp
    have s: "set (map snd order_visited) = {x. reachable graph start x}"
      using I(1) eq by simp
    from r I(6,7) d s I(5) show ?thesis by blast
  next
    case (Cons c rest)
    from inv Cons have ck: "c \<in> set (keys graph)" unfolding bfs_inv_def by auto
    then have "map_of graph c \<noteq> None" by (simp add: keys_def map_of_eq_None_iff)
    then obtain nbrs where get: "map_of graph c = Some nbrs" by auto
    then have gg: "graph_get graph c = Inr nbrs" by (simp add: graph_get_def)
    obtain q' v' ord' where run:
      "bfs_for c nbrs (queue, bfs_visited, order_visited) = (q', v', ord')"
      by (cases "bfs_for c nbrs (queue, bfs_visited, order_visited)") auto
    have inv': "bfs_inv graph start (tl q', v', ord')"
      using bfs_inv_step [OF ok _ get] inv run unfolding Cons by blast
    from 1(1) [OF Cons gg run [symmetric] refl ok inv']
    obtain tr where tr: "bfs_while graph (tl q', v', ord') = Inr tr" "tr \<noteq> []"
      "hd tr = (start, start)" "distinct (map snd tr)"
      "set (map snd tr) = {x. reachable graph start x}"
      "fst ` set tr \<subseteq> {x. reachable graph start x}" by blast
    have "bfs_while graph (queue, bfs_visited, order_visited) =
        bfs_while graph (tl q', v', ord')"
      using Cons gg run by simp
    with tr show ?thesis by simp
  qed
qed

lemma bfs_init_inv:
  assumes "start \<in> set (keys g)"
  shows "bfs_inv g start ([start], [start], [(start, start)])"
  using assms unfolding bfs_inv_def by (simp add: reachable_start)


section \<open>Claims\<close>

subsection \<open>C6: bfs from a start node that is not in the graph\<close>

text \<open>
  C6 (as stated): for a start node absent from the graph, bfs fails with UnknownNodeError.
  The code has no such check: the first \<^verbatim>\<open>graph[current_node]\<close> of the loop raises
  Python's KeyError for the start node.  On the empty graph the run ends with
  \<open>KeyError 0\<close>, which is not \<open>UnknownNodeError\<close>.
\<close>

theorem bfs_unknown_start_counterexample:
  "bfs [] 0 = Inl (KeyError 0) \<and> bfs [] 0 \<noteq> Inl UnknownNodeError"
  by (simp add: bfs_def graph_get_def)

text \<open>
  C6 (amended, only the name of the error differs): for every graph and every start
  node that is not a key of the graph, bfs fails with the KeyError of the start node,
  and this failure occurs before any algorithm work begins: it is raised by the first
  adjacency lookup of the run (the lookup of the start node itself), no trace event is
  produced (the result of the call is the error, not a list of events) and no state is
  changed: the module state when the error is raised is the state before the call.
\<close>

theorem bfs_unknown_start_KeyError:
  assumes "start \<notin> set (keys (adj_list st))"
  shows "graph_get (adj_list st) start = Inl (KeyError start) \<and>
         bfs (adj_list st) start = Inl (KeyError start) \<and>
         bfs_call start st = (Inl (KeyError start), st)"
proof -
  from assms have "map_of (adj_list st) start = None"
    by (simp add: keys_def map_of_eq_None_iff)
  then show ?thesis by (simp add: bfs_call_def bfs_def graph_get_def)
qed

theorem bfs_unknown_start_KeyError_witness:
  "7 \<notin> set (keys (adj_list scenario_state)) \<and>
   bfs_call 7 scenario_state = (Inl (KeyError 7), scenario_state)"
proof -
  have h: "7 \<notin> set (keys (adj_list scenario_state))"
    by (simp add: keys_def scenario_state_def scenario_graph_def)
  have "bfs_call 7 scenario_state = (Inl (KeyError 7), scenario_state)"
    using bfs_unknown_start_KeyError [OF h] by (elim conjE)
  with h show ?thesis by (rule conjI)
qed


subsection \<open>C10: kruskals does not read its first parameter\<close>

text \<open>
  C10: the result of kruskals does not depend on the value passed as the graph argument,
  nor on any module state other than the edge list: for any two values \<open>G1\<close> and \<open>G2\<close>
  (of any types) and any two module states with the same \<^verbatim>\<open>edge_weights_labels\<close>
  (their adjacency lists may differ), with the same \<open>N\<close> and in the same interpreter
  context (the same number of frames left), the two calls return the same trace or the
  same error and leave the same edge list; the adjacency list is left as it was.
\<close>

theorem kruskals_ignores_graph_argument:
  assumes "edge_weights_labels st1 = edge_weights_labels st2"
  shows "fst (kruskals frames G1 N st1) = fst (kruskals frames G2 N st2) \<and>
         edge_weights_labels (snd (kruskals frames G1 N st1)) =
           edge_weights_labels (snd (kruskals frames G2 N st2)) \<and>
         adj_list (snd (kruskals frames G1 N st1)) = adj_list st1"
  using assms by (simp add: kruskals_def Let_def)

theorem kruskals_ignores_graph_argument_witness:
  "edge_weights_labels scenario_state = edge_weights_labels (scenario_state\<lparr>adj_list := []\<rparr>) \<and>
   fst (kruskals 1000 scenario_graph 4 scenario_state) =
     fst (kruskals 1000 (edge_weights_labels scenario_state) 4 (scenario_state\<lparr>adj_list := []\<rparr>)) \<and>
   fst (kruskals 1000 scenario_graph 4 scenario_state) =
     Inr [((2, 3, 1), True), ((1, 2, 3), True), ((0, 1, 5), True), ((0, 3, 10), False)]"
proof -
  have h: "edge_weights_labels scenario_state =
      edge_weights_labels (scenario_state\<lparr>adj_list := []\<rparr>)"
    by simp
  have run: "fst (kruskals 1000 scenario_graph 4 scenario_state) =
     Inr [((2, 3, 1), True), ((1, 2, 3), True), ((0, 1, 5), True), ((0, 3, 10), False)]"
    by code_simp
  have e: "fst (kruskals 1000 scenario_graph 4 scenario_state) =
     fst (kruskals 1000 (edge_weights_labels scenario_state) 4 (scenario_state\<lparr>adj_list := []\<rparr>))"
    using kruskals_ignores_graph_argument [OF h, of 1000 scenario_graph 4
      "edge_weights_labels scenario_state"] by (elim conjE)
  show ?thesis by (rule conjI [OF h conjI [OF e run]])
qed

subsection \<open>C7: kruskals on node identifiers outside 0..N-1\<close>

text \<open>
  C7 (as stated): kruskals completes for every edge list whose endpoints are unique node
  identifiers, also with gaps.  The disjoint-set forest is \<^verbatim>\<open>list(range(N))\<close> indexed by
  the node identifier itself: with the two nodes 0 and 2 (so \<open>N = 2\<close>) and the edge
  (0, 2, 1), \<^verbatim>\<open>find(2)\<close> reads \<^verbatim>\<open>root[2]\<close> and the run ends with IndexError.
\<close>

theorem kruskals_gap_counterexample:
  "kruskals 1000 (adj_list gap_state) 2 gap_state = (Inl IndexError, gap_state)"
  by code_simp

text \<open>
  The depth of \<^verbatim>\<open>find\<close> is a second way to fail, also with all endpoints in 0..N-1:
  the edges (0,1), (1,2), (2,3) taken in this order link the four nodes into one parent
  chain, and \<^verbatim>\<open>find(0)\<close> for the last edge (0,3) nests four calls.  With three frames
  left the run ends with RecursionError.
\<close>

lemma kruskals_chain_RecursionError:
  "edges_within 4 (edge_weights_labels chain_state) \<and>
   fst (kruskals 3 (adj_list chain_state) 4 chain_state) = Inl RecursionError \<and>
   fst (kruskals 5 (adj_list chain_state) 4 chain_state) =
     Inr [((0, 1, 0), True), ((1, 2, 1), True), ((2, 3, 2), True), ((0, 3, 9), False)]"
  by code_simp

text \<open>
  C7 (amended): for every node count \<open>N\<close> smaller than the number of nested calls the
  interpreter still admits, and every edge list whose endpoints all lie in 0..N-1,
  kruskals returns without failure (no IndexError in \<^verbatim>\<open>find\<close> or \<^verbatim>\<open>join\<close>, no
  RecursionError) with exactly one event per input edge, the events being in the order
  of the edge list sorted by weight; a disconnected graph is no exception.
\<close>

theorem kruskals_completes:
  assumes "edges_within N (edge_weights_labels st)" "nat N < frames"
  shows "\<exists>tr. kruskals frames G N st = (Inr tr, st\<lparr>edge_weights_labels := sorted_edges st\<rparr>) \<and>
           map fst tr = sorted_edges st \<and>
           length tr = length (edge_weights_labels st)"
proof -
  from kruskals_correct [OF assms, of G] obtain tr where
    tr: "kruskals frames G N st = (Inr tr, st\<lparr>edge_weights_labels := sorted_edges st\<rparr>)"
      "map fst tr = sorted_edges st" by blast
  from tr(2) have "length tr = length (sorted_edges st)" by (metis length_map)
  then have "length tr = length (edge_weights_labels st)" by (simp add: sorted_edges_def)
  with tr show ?thesis by blast
qed

theorem kruskals_completes_witness:
  "edges_within 4 (edge_weights_labels forest_state) \<and> nat 4 < (1000 :: nat) \<and>
   kruskals 1000 (adj_list forest_state) 4 forest_state =
     (Inr [((2, 3, 2), True), ((0, 1, 4), True)],
      forest_state\<lparr>edge_weights_labels := [(2, 3, 2), (0, 1, 4)]\<rparr>)"
proof -
  have h: "edges_within 4 (edge_weights_labels forest_state)"
    by (simp add: edges_within_def forest_state_def)
  have f: "nat 4 < (1000 :: nat)" by simp
  from kruskals_completes [OF h f, of "adj_list forest_state"]
  obtain tr where tr: "kruskals 1000 (adj_list forest_state) 4 forest_state =
      (Inr tr, forest_state\<lparr>edge_weights_labels := sorted_edges forest_state\<rparr>)"
    "map fst tr = sorted_edges forest_state" by blast
  have "kruskals 1000 (adj_list forest_state) 4 forest_state =
     (Inr [((2, 3, 2), True), ((0, 1, 4), True)],
      forest_state\<lparr>edge_weights_labels := [(2, 3, 2), (0, 1, 4)]\<rparr>)"
    by code_simp
  with h f show ?thesis by simp
qed

subsection \<open>C3: the number of accepted edges\<close>

text \<open>
  C3 (as stated): for every edge list over \<open>N\<close> nodes the number of accepted edges is
  \<open>N\<close> minus the number of connected components.  The claim takes the nodes to be any
  \<open>N\<close> identifiers, but \<^verbatim>\<open>root = list(range(N))\<close> has a slot only for the identifiers
  0..N-1: with the two nodes 1 and 3 (\<open>N = 2\<close>, one component) and the edge (1, 3, 4)
  the claim announces one accepted edge, and the run returns no trace at all:
  \<^verbatim>\<open>find(3)\<close> raises IndexError.
\<close>

theorem kruskals_accepted_count_counterexample:
  "fst (kruskals 1000 (adj_list sparse_state) 2 sparse_state) = Inl IndexError"
  by code_simp

text \<open>
  C3 (amended): for every \<open>N \<ge> 0\<close> smaller than the number of nested calls the
  interpreter still admits, and every edge list whose endpoints all lie in 0..N-1,
  kruskals returns a trace, and the number of its events with \<^verbatim>\<open>added=True\<close> is \<open>N\<close>
  minus the number of connected components of the input graph (the nodes 0..N-1 with
  the edges of the list, by the reference definition \<open>components\<close>).
\<close>

theorem kruskals_accepted_count:
  assumes "0 \<le> N" "edges_within N (edge_weights_labels st)" "nat N < frames"
  shows "\<exists>tr st'. kruskals frames G N st = (Inr tr, st') \<and>
           int (length (filter snd tr)) = N - int (card (components N (edge_weights_labels st)))"
proof -
  from kruskals_correct [OF assms(2,3), of G] obtain tr where
    tr: "kruskals frames G N st = (Inr tr, st\<lparr>edge_weights_labels := sorted_edges st\<rparr>)"
      "length (filter snd tr) + card (components N (edge_weights_labels st)) = nat N" by blast
  from tr(2) assms(1)
  have "int (length (filter snd tr)) = N - int (card (components N (edge_weights_labels st)))"
    by linarith
  with tr(1) show ?thesis by blast
qed

theorem kruskals_accepted_count_witness:
  "0 \<le> (4::int) \<and> edges_within 4 (edge_weights_labels scenario_state) \<and>
   nat 4 < (1000 :: nat) \<and>
   (\<exists>tr st'. kruskals 1000 scenario_graph 4 scenario_state = (Inr tr, st') \<and>
      length (filter snd tr) = 3) \<and>
   card (components 4 (edge_weights_labels scenario_state)) = 1"
proof -
  have h: "edges_within 4 (edge_weights_labels scenario_state)"
    by (simp add: edges_within_def scenario_state_def)
  have f: "nat 4 < (1000 :: nat)" by simp
  from kruskals_accepted_count [OF _ h f, of scenario_graph]
  obtain tr st' where tr: "kruskals 1000 scenario_graph 4 scenario_state = (Inr tr, st')"
    "int (length (filter snd tr)) = 4 - int (card (components 4 (edge_weights_labels scenario_state)))"
    by auto
  have run: "kruskals 1000 scenario_graph 4 scenario_state =
     (Inr [((2, 3, 1), True), ((1, 2, 3), True), ((0, 1, 5), True), ((0, 3, 10), False)],
      scenario_state\<lparr>edge_weights_labels := [(2, 3, 1), (1, 2, 3), (0, 1, 5), (0, 3, 10)]\<rparr>)"
    by code_simp
  with tr(1) have "tr = [((2, 3, 1), True), ((1, 2, 3), True), ((0, 1, 5), True), ((0, 3, 10), False)]"
    by simp
  then have len: "length (filter snd tr) = 3" by simp
  with tr(2) have "card (components 4 (edge_weights_labels scenario_state)) = 1" by simp
  with h f len tr(1) show ?thesis by auto
qed

subsection \<open>C1: the final distance table of dijk\<close>

text \<open>
  C1 (as stated): on every graph with non-negative weights the last snapshot gives every
  node of the start's component its true shortest-path distance.  The relaxation test
  \<^verbatim>\<open>dists[cur] + wt < dists[node]\<close> compares with the sentinel 2000000000, so a distance
  of 2000000000 or more is never recorded: on two nodes joined by an edge of weight
  3000000000, node 1 is reachable from node 0, its shortest-path distance is
  3000000000, and the final table holds the sentinel for it.
\<close>

theorem dijk_far_node_counterexample:
  "graph_ok far_graph \<and> nonneg far_graph \<and> 0 \<in> set (keys far_graph) \<and>
   is_dist far_graph 0 1 3000000000 \<and>
   (\<exists>ad ov. dijk far_graph 0 = Some (Inr (ad, ov)) \<and> last ad 1 = Some 2000000000)"
proof -
  have a: "graph_ok far_graph" by (simp add: graph_ok_def far_graph_def keys_def)
  have b: "nonneg far_graph" by (simp add: nonneg_def far_graph_def)
  have c: "0 \<in> set (keys far_graph)" by (simp add: far_graph_def keys_def)
  have d: "\<exists>ad ov. dijk far_graph 0 = Some (Inr (ad, ov)) \<and> last ad 1 = Some 2000000000"
    by (simp add: dijk_def far_graph_def dijk_while.simps hpop_def graph_get_def INF_val_def
        keys_def hpush_def tuple_le_def Let_def)
  from a b c far_dist d show ?thesis by blast
qed

text \<open>
  C1 (amended): for every graph with non-negative weights whose adjacency entries name
  nodes of the graph, and every start node of the graph, dijk returns, and its last
  snapshot gives every node reachable from the start the smaller of its true
  shortest-path distance (the reference \<open>is_dist\<close>) and the sentinel 2000000000, hence
  the true distance whenever that is below 2000000000; every node that is not reachable
  retains the sentinel.
\<close>

theorem dijk_shortest_paths:
  assumes "graph_ok g" "nonneg g" "start \<in> set (keys g)"
  shows "\<exists>ad ov. dijk g start = Some (Inr (ad, ov)) \<and>
     (\<forall>v \<in> set (keys g).
        (reachable g start v \<longrightarrow>
           (\<exists>d. is_dist g start v d \<and> last ad v = Some (min d INF_val))) \<and>
        (\<not> reachable g start v \<longrightarrow> last ad v = Some INF_val))"
proof -
  from dijk_final [OF assms] obtain ad ov where run: "dijk g start = Some (Inr (ad, ov))"
    and fin: "\<forall>v \<in> set (keys g). \<exists>x. last ad v = Some x \<and> x \<le> INF_val \<and>
              (x < INF_val \<longrightarrow> walk g start v x) \<and>
              (\<forall>d. walk g start v d \<longrightarrow> x \<le> d)"
    by blast
  have "\<forall>v \<in> set (keys g).
        (reachable g start v \<longrightarrow>
           (\<exists>d. is_dist g start v d \<and> last ad v = Some (min d INF_val))) \<and>
        (\<not> reachable g start v \<longrightarrow> last ad v = Some INF_val)"
  proof (intro ballI conjI impI)
    fix v assume v: "v \<in> set (keys g)" and r: "reachable g start v"
    from fin v obtain x where x: "last ad v = Some x" "x \<le> INF_val"
      "x < INF_val \<longrightarrow> walk g start v x" "\<forall>d. walk g start v d \<longrightarrow> x \<le> d" by blast
    from is_dist_ex [OF assms(2) r] obtain d where d: "is_dist g start v d" by blast
    then have dw: "walk g start v d" and dmin: "\<forall>d'. walk g start v d' \<longrightarrow> d \<le> d'"
      unfolding is_dist_def by blast+
    from x(4) dw have xd: "x \<le> d" by blast
    have "x = min d INF_val"
    proof (cases "x < INF_val")
      case True
      with x(3) dmin have "d \<le> x" by blast
      with xd True show ?thesis by simp
    next
      case False
      with x(2) xd show ?thesis by simp
    qed
    with x(1) d show "\<exists>d. is_dist g start v d \<and> last ad v = Some (min d INF_val)" by blast
  next
    fix v assume v: "v \<in> set (keys g)" and r: "\<not> reachable g start v"
    from fin v obtain x where x: "last ad v = Some x" "x \<le> INF_val"
      "x < INF_val \<longrightarrow> walk g start v x" by blast
    from r x(3) have "\<not> x < INF_val" unfolding reachable_def by blast
    with x(1,2) show "last ad v = Some INF_val" by simp
  qed
  with run show ?thesis by blast
qed

theorem dijk_shortest_paths_witness:
  "graph_ok scenario_graph \<and> nonneg scenario_graph \<and> 0 \<in> set (keys scenario_graph) \<and>
   (\<exists>ad ov. dijk scenario_graph 0 = Some (Inr (ad, ov)) \<and>
      map (last ad) [0, 1, 2, 3] = [Some 0, Some 5, Some 8, Some 9])"
proof -
  have a: "graph_ok scenario_graph" by (simp add: graph_ok_def scenario_graph_def keys_def)
  have b: "nonneg scenario_graph" by (simp add: nonneg_def scenario_graph_def)
  have c: "0 \<in> set (keys scenario_graph)" by (simp add: scenario_graph_def keys_def)
  from dijk_shortest_paths [OF a b c] obtain ad ov where
    "dijk scenario_graph 0 = Some (Inr (ad, ov))" by blast
  have d: "\<exists>ad ov. dijk scenario_graph 0 = Some (Inr (ad, ov)) \<and>
      map (last ad) [0, 1, 2, 3] = [Some 0, Some 5, Some 8, Some 9]"
    by (simp add: dijk_def scenario_graph_def dijk_while.simps hpop_def graph_get_def
        INF_val_def keys_def hpush_def tuple_le_def Let_def)
  from a b c d show ?thesis by blast
qed

subsection \<open>C8: the recorded distances never increase\<close>

text \<open>
  C8: for every graph with non-negative weights (its adjacency entries naming nodes of
  the graph, the invariant of the specification's GraphModel) and every start node of
  the graph, dijk returns, and for every node of the graph the distances recorded for
  it in the successive snapshots are non-increasing: each snapshot has an entry for
  the node, and a later one is never larger than an earlier one.
\<close>

theorem dijk_distances_nonincreasing:
  assumes "graph_ok g" "nonneg g" "start \<in> set (keys g)"
  shows "\<exists>ad ov. dijk g start = Some (Inr (ad, ov)) \<and>
     (\<forall>v \<in> set (keys g). \<forall>i j. i \<le> j \<and> j < length ad \<longrightarrow>
        (\<exists>a b. (ad ! i) v = Some a \<and> (ad ! j) v = Some b \<and> b \<le> a))"
proof -
  from dijk_final [OF assms] obtain ad ov where run: "dijk g start = Some (Inr (ad, ov))"
    and tr: "trace_ok ad ov" and hd: "hd ad = dists_init g start"
    by blast
  have ne: "ad \<noteq> []" using tr by (simp add: trace_ok_def)
  have "\<forall>v \<in> set (keys g). \<forall>i j. i \<le> j \<and> j < length ad \<longrightarrow>
        (\<exists>a b. (ad ! i) v = Some a \<and> (ad ! j) v = Some b \<and> b \<le> a)"
  proof (intro ballI allI impI)
    fix v i j assume v: "v \<in> set (keys g)" and ij: "i \<le> j \<and> j < length ad"
    have "(ad ! 0) v = dists_init g start v" using hd ne by (simp add: hd_conv_nth)
    moreover have "\<exists>a0. dists_init g start v = Some a0"
      using v by (simp add: dists_init_apply)
    ultimately obtain a0 where a0: "(ad ! 0) v = Some a0" by auto
    from ij have i: "i < length ad" by simp
    from trace_ok_mono [OF tr _ i a0] obtain a where a: "(ad ! i) v = Some a" by auto
    from trace_ok_mono [OF tr _ _ a, of j] ij obtain b where "(ad ! j) v = Some b" "b \<le> a"
      by auto
    with a show "\<exists>a b. (ad ! i) v = Some a \<and> (ad ! j) v = Some b \<and> b \<le> a" by blast
  qed
  with run show ?thesis by blast
qed

theorem dijk_distances_nonincreasing_witness:
  "graph_ok scenario_graph \<and> nonneg scenario_graph \<and> 2 \<in> set (keys scenario_graph) \<and>
   (\<exists>ad ov. dijk scenario_graph 2 = Some (Inr (ad, ov)) \<and>
      map (\<lambda>d. d 0) ad = [Some 2000000000, Some 2000000000, Some 2000000000, Some 11, Some 8])"
proof -
  have a: "graph_ok scenario_graph" by (simp add: graph_ok_def scenario_graph_def keys_def)
  have b: "nonneg scenario_graph" by (simp add: nonneg_def scenario_graph_def)
  have c: "2 \<in> set (keys scenario_graph)" by (simp add: scenario_graph_def keys_def)
  from dijk_distances_nonincreasing [OF a b c] obtain ad ov where
    "dijk scenario_graph 2 = Some (Inr (ad, ov))" by blast
  have d: "\<exists>ad ov. dijk scenario_graph 2 = Some (Inr (ad, ov)) \<and>
      map (\<lambda>d. d 0) ad = [Some 2000000000, Some 2000000000, Some 2000000000, Some 11, Some 8]"
    by (simp add: dijk_def scenario_graph_def dijk_while.simps hpop_def graph_get_def
        INF_val_def keys_def hpush_def tuple_le_def Let_def)
  from a b c d show ?thesis by blast
qed

subsection \<open>C9: the two lists of dijk are aligned\<close>

text \<open>
  C9: whenever dijk returns, on any graph and start node, its two lists
  \<^verbatim>\<open>animation_dists\<close> and \<^verbatim>\<open>order_visited\<close> have the same length, which is one plus the
  number of relaxation events: there is a first frame, the initial table with the
  start node, and every later frame is exactly one relaxation, of the node that
  \<^verbatim>\<open>order_visited\<close> holds at the same index.  So the same frame number indexes both
  lists in bounds.
\<close>

theorem dijk_frames_aligned:
  assumes "dijk g start = Some (Inr (ad, ov))"
  shows "length ad = length ov \<and> 0 < length ad \<and>
         hd ad = dists_init g start \<and> hd ov = start \<and>
         (\<forall>i. 0 < i \<and> i < length ad \<longrightarrow> relax_step (ad ! (i - 1)) (ad ! i) (ov ! i))"
proof -
  from dijk_trace [OF assms] have tr: "trace_ok ad ov" and hd: "hd ad = dists_init g start"
    by simp_all
  have "\<forall>i. 0 < i \<and> i < length ad \<longrightarrow> relax_step (ad ! (i - 1)) (ad ! i) (ov ! i)"
  proof (intro allI impI)
    fix i assume i: "0 < i \<and> i < length ad"
    then obtain k where k: "i = Suc k" by (cases i) auto
    with i tr show "relax_step (ad ! (i - 1)) (ad ! i) (ov ! i)"
      by (simp add: trace_ok_def)
  qed
  moreover have "length ad = length ov" "0 < length ad"
    using tr by (auto simp: trace_ok_def)
  ultimately show ?thesis using hd dijk_hd [OF assms] by blast
qed

theorem dijk_frames_aligned_witness:
  "\<exists>ad ov. dijk scenario_graph 0 = Some (Inr (ad, ov)) \<and> length ad = 5 \<and> length ov = 5 \<and>
     ov = [0, 1, 3, 2, 3]"
proof -
  have d: "\<exists>ad ov. dijk scenario_graph 0 = Some (Inr (ad, ov)) \<and> ov = [0, 1, 3, 2, 3]"
    by (simp add: dijk_def scenario_graph_def dijk_while.simps hpop_def graph_get_def
        INF_val_def keys_def hpush_def tuple_le_def Let_def)
  then obtain ad ov where r: "dijk scenario_graph 0 = Some (Inr (ad, ov))"
    "ov = [0, 1, 3, 2, 3]" by blast
  from dijk_frames_aligned [OF r(1)] have "length ad = length ov" by simp
  with r show ?thesis by simp
qed

subsection \<open>C2: bfs visits the component of the start node, each node once\<close>

text \<open>
  C2: for every graph (an adjacency list whose entries name nodes of the graph, the
  invariant of the specification's GraphModel) and every start node of the graph, bfs
  returns a trace whose first event is the self-loop \<open>(start, start)\<close>; every node
  reachable from the start (on a symmetric adjacency list: the start's connected
  component) is the target of exactly one event, and no other node is the target or
  the source of any event.
\<close>

theorem bfs_visits_component:
  assumes "graph_ok g" "start \<in> set (keys g)"
  shows "\<exists>tr. bfs g start = Inr tr \<and> tr \<noteq> [] \<and> hd tr = (start, start) \<and>
           distinct (map snd tr) \<and> set (map snd tr) = {x. reachable g start x} \<and>
           fst ` set tr \<subseteq> {x. reachable g start x}"
  unfolding bfs_def
  by (rule bfs_while_correct [OF assms(1) bfs_init_inv [OF assms(2)]])

theorem bfs_visits_component_witness:
  "graph_ok split_graph \<and> 0 \<in> set (keys split_graph) \<and>
   bfs split_graph 0 = Inr [(0, 0), (0, 1), (0, 3), (1, 2)] \<and>
   {x. reachable split_graph 0 x} = {0, 1, 2, 3}"
proof -
  have a: "graph_ok split_graph" by (simp add: graph_ok_def split_graph_def keys_def)
  have b: "0 \<in> set (keys split_graph)" by (simp add: split_graph_def keys_def)
  have c: "bfs split_graph 0 = Inr [(0, 0), (0, 1), (0, 3), (1, 2)]"
    by (simp add: bfs_def split_graph_def graph_get_def)
  from bfs_visits_component [OF a b] c
  have "set (map snd [(0, 0), (0, 1), (0, 3), (1, 2 :: int)]) = {x. reachable split_graph 0 x}"
    by auto
  then have d: "{x. reachable split_graph 0 x} = {0, 1, 2, 3}" by auto
  from a b c d show ?thesis by blast
qed

end
